theory Spec2Isabelle
  imports Main "HOL-Library.Multiset"
begin

section \<open>Data model\<close>

text \<open>
  The search worker (\<^verbatim>\<open>findBestMove\<close>, \<^verbatim>\<open>minimax\<close>, \<^verbatim>\<open>orderMoves\<close>, \<^verbatim>\<open>evaluate\<close>)
  works on values of the chess.js library: piece symbols, colours, the 8x8 array
  returned by \<^verbatim>\<open>game.board()\<close> (row 0 is rank 8, as the board component's
  \<^verbatim>\<open>rank = 8 - rowIdx\<close> shows) and verbose move objects.
\<close>

datatype PieceSymbol = Pawn | Knight | Bishop | Rook | Queen | King

datatype Color = White | Black

record piece =
  ptype :: PieceSymbol
  pcolor :: Color

type_synonym board = "piece option list list"

text \<open>
  Of a chess.js move object the worker reads \<^verbatim>\<open>captured\<close>, \<^verbatim>\<open>promotion\<close> and
  \<^verbatim>\<open>san\<close>; \<^verbatim>\<open>from\<close> and \<^verbatim>\<open>to\<close> identify the move.
\<close>

record move =
  mfrom :: string
  mto :: string
  captured :: "PieceSymbol option"
  promotion :: "PieceSymbol option"
  san :: string

text \<open>
  A JavaScript number as the search uses it: the integers produced by \<^verbatim>\<open>evaluate\<close>
  and the two sentinels \<^verbatim>\<open>-Infinity\<close> and \<^verbatim>\<open>Infinity\<close>. The order is the numeric one.
\<close>

datatype score = NegInfinity | Num int | Infinity

instantiation score :: linorder
begin

fun less_eq_score :: "score \<Rightarrow> score \<Rightarrow> bool" where
  "less_eq_score NegInfinity _ = True"
| "less_eq_score _ Infinity = True"
| "less_eq_score (Num a) (Num b) = (a \<le> b)"
| "less_eq_score _ _ = False"

definition less_score :: "score \<Rightarrow> score \<Rightarrow> bool" where
  "less_score x y = (x \<le> y \<and> \<not> y \<le> x)"

instance
proof
  fix x y z :: score
  show "(x < y) = (x \<le> y \<and> \<not> y \<le> x)"
    by (simp add: less_score_def)
  show "x \<le> x"
    by (cases x) simp_all
  show "x \<le> y \<Longrightarrow> y \<le> z \<Longrightarrow> x \<le> z"
    by (cases x; cases y; cases z) simp_all
  show "x \<le> y \<Longrightarrow> y \<le> x \<Longrightarrow> x = y"
    by (cases x; cases y) simp_all
  show "x \<le> y \<or> y \<le> x"
    by (cases x; cases y) auto
qed

end

text \<open>
  The rules engine (chess.js) is not part of the repository; the worker uses it through
  the six operations below. \<open>'g\<close> is the state of a \<^verbatim>\<open>Chess\<close> object.
  \<open>new_Chess\<close> is \<^verbatim>\<open>new Chess(fen)\<close> (\<open>None\<close> when the constructor throws on a
  string it cannot parse), \<open>game_moves\<close> is \<^verbatim>\<open>game.moves({ verbose: true })\<close>,
  \<open>game_move\<close> and \<open>game_undo\<close> are \<^verbatim>\<open>game.move(m)\<close> and \<^verbatim>\<open>game.undo()\<close>,
  which mutate the object and so return its new state here.
\<close>

record 'g engine =
  new_Chess :: "string \<Rightarrow> 'g option"
  game_board :: "'g \<Rightarrow> board"
  game_moves :: "'g \<Rightarrow> move list"
  game_move :: "'g \<Rightarrow> move \<Rightarrow> 'g"
  game_undo :: "'g \<Rightarrow> 'g"
  game_isGameOver :: "'g \<Rightarrow> bool"

section \<open>Evaluation\<close>

fun PIECE_VALUES :: "PieceSymbol \<Rightarrow> int" where
  "PIECE_VALUES Pawn = 100"
| "PIECE_VALUES Knight = 320"
| "PIECE_VALUES Bishop = 330"
| "PIECE_VALUES Rook = 500"
| "PIECE_VALUES Queen = 900"
| "PIECE_VALUES King = 20000"

definition PST_PAWN :: "int list" where
  "PST_PAWN =
    [0,  0,  0,  0,  0,  0,  0,  0,
     50, 50, 50, 50, 50, 50, 50, 50,
     10, 10, 20, 30, 30, 20, 10, 10,
     5,  5, 10, 25, 25, 10,  5,  5,
     0,  0,  0, 20, 20,  0,  0,  0,
     5, -5,-10,  0,  0,-10, -5,  5,
     5, 10, 10,-20,-20, 10, 10,  5,
     0,  0,  0,  0,  0,  0,  0,  0]"

definition PST_KNIGHT :: "int list" where
  "PST_KNIGHT =
    [-50,-40,-30,-30,-30,-30,-40,-50,
     -40,-20,  0,  0,  0,  0,-20,-40,
     -30,  0, 10, 15, 15, 10,  0,-30,
     -30,  5, 15, 20, 20, 15,  5,-30,
     -30,  0, 15, 20, 20, 15,  0,-30,
     -30,  5, 10, 15, 15, 10,  5,-30,
     -40,-20,  0,  5,  5,  0,-20,-40,
     -50,-40,-30,-30,-30,-30,-40,-50]"

definition PST_BISHOP :: "int list" where
  "PST_BISHOP =
    [-20,-10,-10,-10,-10,-10,-10,-20,
     -10,  0,  0,  0,  0,  0,  0,-10,
     -10,  0, 10, 10, 10, 10,  0,-10,
     -10,  5,  5, 10, 10,  5,  5,-10,
     -10,  0, 10, 10, 10, 10,  0,-10,
     -10, 10, 10, 10, 10, 10, 10,-10,
     -10,  5,  0,  0,  0,  0,  5,-10,
     -20,-10,-10,-10,-10,-10,-10,-20]"

definition PST_ROOK :: "int list" where
  "PST_ROOK =
    [0,  0,  0,  0,  0,  0,  0,  0,
     5, 10, 10, 10, 10, 10, 10,  5,
     -5,  0,  0,  0,  0,  0,  0, -5,
     -5,  0,  0,  0,  0,  0,  0, -5,
     -5,  0,  0,  0,  0,  0,  0, -5,
     -5,  0,  0,  0,  0,  0,  0, -5,
     -5,  0,  0,  0,  0,  0,  0, -5,
     0,  0,  0,  5,  5,  0,  0,  0]"

definition PST_QUEEN :: "int list" where
  "PST_QUEEN =
    [-20,-10,-10, -5, -5,-10,-10,-20,
     -10,  0,  0,  0,  0,  0,  0,-10,
     -10,  0,  5,  5,  5,  5,  0,-10,
     -5,  0,  5,  5,  5,  5,  0, -5,
     0,  0,  5,  5,  5,  5,  0, -5,
     -10,  5,  5,  5,  5,  5,  0,-10,
     -10,  0,  5,  0,  0,  0,  0,-10,
     -20,-10,-10, -5, -5,-10,-10,-20]"

definition PST_KING_MID :: "int list" where
  "PST_KING_MID =
    [-30,-40,-40,-50,-50,-40,-40,-30,
     -30,-40,-40,-50,-50,-40,-40,-30,
     -30,-40,-40,-50,-50,-40,-40,-30,
     -30,-40,-40,-50,-50,-40,-40,-30,
     -20,-30,-30,-40,-40,-30,-30,-20,
     -10,-20,-20,-20,-20,-20,-20,-10,
     20, 20,  0,  0,  0,  0, 20, 20,
     20, 30, 10,  0,  0, 10, 30, 20]"

fun PST_MAP :: "PieceSymbol \<Rightarrow> int list" where
  "PST_MAP Pawn = PST_PAWN"
| "PST_MAP Knight = PST_KNIGHT"
| "PST_MAP Bishop = PST_BISHOP"
| "PST_MAP Rook = PST_ROOK"
| "PST_MAP Queen = PST_QUEEN"
| "PST_MAP King = PST_KING_MID"

text \<open>
  The body of the inner loop of \<^verbatim>\<open>evaluate\<close> for one square: an empty square is
  skipped (\<^verbatim>\<open>continue\<close>); a white piece adds its value and the table entry at
  \<open>mirrorIdx\<close>, a black piece subtracts its value and the table entry at \<open>idx\<close>.
\<close>

definition evaluate_square :: "board \<Rightarrow> nat \<Rightarrow> nat \<Rightarrow> int \<Rightarrow> int" where
  "evaluate_square board row col score =
    (case board ! row ! col of
       None \<Rightarrow> score
     | Some piece \<Rightarrow>
        (let idx = row * 8 + col;
             mirrorIdx = (7 - row) * 8 + col;
             value = PIECE_VALUES (ptype piece);
             pst = PST_MAP (ptype piece)
         in if pcolor piece = White then score + (value + pst ! mirrorIdx)
            else score - (value + pst ! idx)))"

text \<open>
  \<^verbatim>\<open>evaluate(game)\<close>: the two nested loops over \<open>row\<close> and \<open>col\<close> in \<open>0..7\<close>,
  accumulating \<open>score\<close> from 0. chess.js always returns an 8x8 array from
  \<^verbatim>\<open>board()\<close>; \<open>wf_board\<close> states that shape.
\<close>

definition evaluate_board :: "board \<Rightarrow> int" where
  "evaluate_board board =
    fold (\<lambda>row score. fold (\<lambda>col score. evaluate_square board row col score) [0..<8] score)
      [0..<8] 0"

definition evaluate :: "'g engine \<Rightarrow> 'g \<Rightarrow> int" where
  "evaluate eng game = (let board = game_board eng game in evaluate_board board)"

definition wf_board :: "board \<Rightarrow> bool" where
  "wf_board b \<longleftrightarrow> length b = 8 \<and> list_all (\<lambda>r. length r = 8) b"

section \<open>Move ordering\<close>

text \<open>
  The comparator passed to \<^verbatim>\<open>moves.sort\<close>: both scores start at 0; a capture adds ten
  times the value of the captured piece, a promotion adds the value of the promotion
  piece, a \<^verbatim>\<open>+\<close> in the SAN adds 50; the result is \<open>scoreB - scoreA\<close>.
\<close>

definition orderMoves_compare :: "move \<Rightarrow> move \<Rightarrow> int" where
  "orderMoves_compare a b =
    (let scoreA0 = 0;
         scoreB0 = 0;
         scoreA1 = (case captured a of Some p \<Rightarrow> scoreA0 + PIECE_VALUES p * 10 | None \<Rightarrow> scoreA0);
         scoreB1 = (case captured b of Some p \<Rightarrow> scoreB0 + PIECE_VALUES p * 10 | None \<Rightarrow> scoreB0);
         scoreA2 = (case promotion a of Some p \<Rightarrow> scoreA1 + PIECE_VALUES p | None \<Rightarrow> scoreA1);
         scoreB2 = (case promotion b of Some p \<Rightarrow> scoreB1 + PIECE_VALUES p | None \<Rightarrow> scoreB1);
         scoreA = (if CHR ''+'' \<in> set (san a) then scoreA2 + 50 else scoreA2);
         scoreB = (if CHR ''+'' \<in> set (san b) then scoreB2 + 50 else scoreB2)
     in scoreB - scoreA)"

text \<open>
  \<^verbatim>\<open>Array.prototype.sort(compareFn)\<close> is a stable sort (ECMAScript 2019): \<open>a\<close> comes
  before \<open>b\<close> when \<open>compareFn a b < 0\<close>, and elements that compare equal keep their
  order. \<open>sort_insert\<close> puts an element in front of a sorted list whose elements all
  came after it in the array.
\<close>

fun sort_insert :: "('a \<Rightarrow> 'a \<Rightarrow> int) \<Rightarrow> 'a \<Rightarrow> 'a list \<Rightarrow> 'a list" where
  "sort_insert compareFn x [] = [x]"
| "sort_insert compareFn x (y # ys) =
    (if compareFn x y \<le> 0 then x # y # ys else y # sort_insert compareFn x ys)"

definition sorted_by :: "('a \<Rightarrow> 'a \<Rightarrow> int) \<Rightarrow> 'a list \<Rightarrow> 'a list" where
  "sorted_by compareFn xs = foldr (sort_insert compareFn) xs []"

text \<open>
  JavaScript arrays are objects: a heap maps an array reference to the array's
  contents. \<^verbatim>\<open>sort\<close> sorts the array in place and returns the reference it was
  called on.
\<close>

type_synonym heap = "nat \<Rightarrow> move list"

definition Array_sort :: "(move \<Rightarrow> move \<Rightarrow> int) \<Rightarrow> nat \<Rightarrow> heap \<Rightarrow> nat \<times> heap" where
  "Array_sort compareFn arr h = (arr, h(arr := sorted_by compareFn (h arr)))"

definition orderMoves :: "nat \<Rightarrow> heap \<Rightarrow> nat \<times> heap" where
  "orderMoves moves h = Array_sort orderMoves_compare moves h"

text \<open>
  Both callers pass the array that \<^verbatim>\<open>game.moves({ verbose: true })\<close> has just
  created and keep only the returned reference: \<open>orderMoves_of ms\<close> is the contents
  of the array that \<^verbatim>\<open>orderMoves\<close> returns when called on a new array holding \<open>ms\<close>.
\<close>

definition orderMoves_of :: "move list \<Rightarrow> move list" where
  "orderMoves_of ms =
    (let h = (\<lambda>_. [])(0 := ms);
         (r, h') = orderMoves 0 h
     in h' r)"

section \<open>Search\<close>

text \<open>
  The state a search call works on: the \<^verbatim>\<open>Chess\<close> object, and two ghost fields
  used to state which calls happen: a counter of the calls of \<^verbatim>\<open>evaluate\<close> made so
  far, and the stack of the moves applied by \<^verbatim>\<open>game.move\<close> and not yet taken back by
  \<^verbatim>\<open>game.undo\<close> (most recent first).
\<close>

record 'g search_state =
  game :: 'g
  evalCalls :: nat
  pending :: "move list"

definition call_evaluate :: "'g engine \<Rightarrow> 'g search_state \<Rightarrow> score \<times> 'g search_state" where
  "call_evaluate eng st = (Num (evaluate eng (game st)), st\<lparr>evalCalls := Suc (evalCalls st)\<rparr>)"

definition do_move :: "'g engine \<Rightarrow> move \<Rightarrow> 'g search_state \<Rightarrow> 'g search_state" where
  "do_move eng m st = st\<lparr>game := game_move eng (game st) m, pending := m # pending st\<rparr>"

definition do_undo :: "'g engine \<Rightarrow> 'g search_state \<Rightarrow> 'g search_state" where
  "do_undo eng st = st\<lparr>game := game_undo eng (game st), pending := tl (pending st)\<rparr>"

text \<open>
  The two \<^verbatim>\<open>for (const move of moves)\<close> loops of \<^verbatim>\<open>minimax\<close>, from the move they
  are about to visit, with the current \<open>alpha\<close>, \<open>beta\<close> and \<open>maxEval\<close>
  (\<open>minEval\<close>). \<open>recurse st alpha beta\<close> stands for the recursive call
  \<^verbatim>\<open>minimax(game, depth - 1, alpha, beta, false)\<close> (\<^verbatim>\<open>true\<close> in the minimizing loop) on
  the state \<open>st\<close>; \<^verbatim>\<open>break\<close> leaves the loop after the \<^verbatim>\<open>game.undo()\<close> of the
  iteration.
\<close>

fun minimax_max :: "('g search_state \<Rightarrow> score \<Rightarrow> score \<Rightarrow> (score \<times> 'g search_state) option)
      \<Rightarrow> 'g engine \<Rightarrow> 'g search_state \<Rightarrow> move list \<Rightarrow> score \<Rightarrow> score \<Rightarrow> score
      \<Rightarrow> (score \<times> 'g search_state) option" where
  "minimax_max recurse eng st [] alpha beta maxEval = Some (maxEval, st)"
| "minimax_max recurse eng st (m # rest) alpha beta maxEval =
    (case recurse (do_move eng m st) alpha beta of
       None \<Rightarrow> None
     | Some (evalScore, st1) \<Rightarrow>
        (let st2 = do_undo eng st1;
             maxEval' = max maxEval evalScore;
             alpha' = max alpha evalScore
         in if beta \<le> alpha' then Some (maxEval', st2)
            else minimax_max recurse eng st2 rest alpha' beta maxEval'))"

fun minimax_min :: "('g search_state \<Rightarrow> score \<Rightarrow> score \<Rightarrow> (score \<times> 'g search_state) option)
      \<Rightarrow> 'g engine \<Rightarrow> 'g search_state \<Rightarrow> move list \<Rightarrow> score \<Rightarrow> score \<Rightarrow> score
      \<Rightarrow> (score \<times> 'g search_state) option" where
  "minimax_min recurse eng st [] alpha beta minEval = Some (minEval, st)"
| "minimax_min recurse eng st (m # rest) alpha beta minEval =
    (case recurse (do_move eng m st) alpha beta of
       None \<Rightarrow> None
     | Some (evalScore, st1) \<Rightarrow>
        (let st2 = do_undo eng st1;
             minEval' = min minEval evalScore;
             beta' = min beta evalScore
         in if beta' \<le> alpha then Some (minEval', st2)
            else minimax_min recurse eng st2 rest alpha beta' minEval'))"

text \<open>
  \<^verbatim>\<open>minimax(game, depth, alpha, beta, isMaximizing)\<close>. \<open>depth\<close> is a JavaScript number
  compared with \<^verbatim>\<open>=== 0\<close> and decremented, so a call with a negative depth recurses
  until the game is over; the first argument bounds the nesting of calls, and \<open>None\<close>
  means that the bound was reached.
\<close>

primrec minimax :: "nat \<Rightarrow> 'g engine \<Rightarrow> 'g search_state \<Rightarrow> int \<Rightarrow> score \<Rightarrow> score \<Rightarrow> bool
      \<Rightarrow> (score \<times> 'g search_state) option" where
  "minimax 0 eng st depth alpha beta isMaximizing = None"
| "minimax (Suc fuel) eng st depth alpha beta isMaximizing =
    (if depth = 0 \<or> game_isGameOver eng (game st) then Some (call_evaluate eng st)
     else
       let moves = orderMoves_of (game_moves eng (game st)) in
       if isMaximizing then
         minimax_max (\<lambda>st' alpha' beta'. minimax fuel eng st' (depth - 1) alpha' beta' False)
           eng st moves alpha beta NegInfinity
       else
         minimax_min (\<lambda>st' alpha' beta'. minimax fuel eng st' (depth - 1) alpha' beta' True)
           eng st moves alpha beta Infinity)"

text \<open>
  The loop of \<^verbatim>\<open>findBestMove\<close> over the ordered root moves, with the current
  \<open>bestMove\<close> and \<open>bestEval\<close>; it returns both, and the final state.
\<close>

fun findBestMove_loop :: "nat \<Rightarrow> 'g engine \<Rightarrow> 'g search_state \<Rightarrow> int \<Rightarrow> move list
      \<Rightarrow> move option \<Rightarrow> score \<Rightarrow> ((move option \<times> score) \<times> 'g search_state) option" where
  "findBestMove_loop fuel eng st depth [] bestMove bestEval = Some ((bestMove, bestEval), st)"
| "findBestMove_loop fuel eng st depth (m # rest) bestMove bestEval =
    (case minimax fuel eng (do_move eng m st) (depth - 1) NegInfinity Infinity True of
       None \<Rightarrow> None
     | Some (evalScore, st1) \<Rightarrow>
        (let st2 = do_undo eng st1
         in if evalScore < bestEval then findBestMove_loop fuel eng st2 depth rest (Some m) evalScore
            else findBestMove_loop fuel eng st2 depth rest bestMove bestEval))"

datatype error = InvalidFen

text \<open>
  \<^verbatim>\<open>findBestMove(fen, depth)\<close>, returning with the result the final state of its
  local \<^verbatim>\<open>game\<close> object: \<open>Inl InvalidFen\<close> when \<^verbatim>\<open>new Chess(fen)\<close> throws,
  \<open>None\<close> for \<^verbatim>\<open>null\<close>.
\<close>

definition findBestMove_run :: "nat \<Rightarrow> 'g engine \<Rightarrow> string \<Rightarrow> int
      \<Rightarrow> (error + move option \<times> 'g search_state) option" where
  "findBestMove_run fuel eng fen depth =
    (case new_Chess eng fen of
       None \<Rightarrow> Some (Inl InvalidFen)
     | Some g \<Rightarrow>
        (let st = \<lparr>game = g, evalCalls = 0, pending = []\<rparr>;
             moves = orderMoves_of (game_moves eng g)
         in if length moves = 0 then Some (Inr (None, st))
            else
              (case findBestMove_loop fuel eng st depth moves None Infinity of
                 None \<Rightarrow> None
               | Some ((bestMove, bestEval), st') \<Rightarrow> Some (Inr (bestMove, st')))))"

definition findBestMove :: "nat \<Rightarrow> 'g engine \<Rightarrow> string \<Rightarrow> int \<Rightarrow> (error + move option) option" where
  "findBestMove fuel eng fen depth = map_option (map_sum id fst) (findBestMove_run fuel eng fen depth)"

section \<open>Notions used to state the properties\<close>

subsection \<open>The contract of the rules engine\<close>

text \<open>
  The search relies on two properties of chess.js, stated for the positions that can
  be reached from a position \<open>g0\<close> by legal moves: \<^verbatim>\<open>undo\<close> takes back the last
  \<^verbatim>\<open>move\<close> exactly, and a position without legal moves is reported as game over
  (checkmate or stalemate). \<open>legal_path eng g ms\<close> says that the moves \<open>ms\<close> can be
  played one after the other from \<open>g\<close>; \<open>play eng g ms\<close> is the position they lead to.
\<close>

fun legal_path :: "'g engine \<Rightarrow> 'g \<Rightarrow> move list \<Rightarrow> bool" where
  "legal_path eng g [] = True"
| "legal_path eng g (m # ms) =
    (m \<in> set (game_moves eng g) \<and> legal_path eng (game_move eng g m) ms)"

definition play :: "'g engine \<Rightarrow> 'g \<Rightarrow> move list \<Rightarrow> 'g" where
  "play eng g ms = foldl (game_move eng) g ms"

definition undo_restores :: "'g engine \<Rightarrow> 'g \<Rightarrow> bool" where
  "undo_restores eng g0 \<longleftrightarrow>
    (\<forall>ms. legal_path eng g0 ms \<longrightarrow>
      (\<forall>m \<in> set (game_moves eng (play eng g0 ms)).
         game_undo eng (game_move eng (play eng g0 ms) m) = play eng g0 ms))"

definition game_over_reported :: "'g engine \<Rightarrow> 'g \<Rightarrow> bool" where
  "game_over_reported eng g0 \<longleftrightarrow>
    (\<forall>ms. legal_path eng g0 ms \<longrightarrow> game_moves eng (play eng g0 ms) = []
       \<longrightarrow> game_isGameOver eng (play eng g0 ms))"

subsection \<open>The full traversal and the score of a root move\<close>

text \<open>
  The unpruned traversal the pruned search is compared with: the same terminal test,
  the same ordered moves and the same \<^verbatim>\<open>evaluate\<close> at the leaves, the maximum
  (minimum) taken over all the children, with \<^verbatim>\<open>-Infinity\<close> (\<^verbatim>\<open>Infinity\<close>) for a
  node without moves.
\<close>

fun fullMinimax :: "'g engine \<Rightarrow> 'g \<Rightarrow> nat \<Rightarrow> bool \<Rightarrow> score" where
  "fullMinimax eng g 0 isMaximizing = Num (evaluate eng g)"
| "fullMinimax eng g (Suc d) isMaximizing =
    (if game_isGameOver eng g then Num (evaluate eng g)
     else
       let children = map (\<lambda>m. fullMinimax eng (game_move eng g m) d (\<not> isMaximizing))
                        (orderMoves_of (game_moves eng g))
       in if isMaximizing then fold max children NegInfinity
          else fold min children Infinity)"

text \<open>
  The score the loop of \<^verbatim>\<open>findBestMove\<close> computes for the root move \<open>m\<close>:
  \<^verbatim>\<open>game.move(m)\<close>, then \<^verbatim>\<open>minimax(game, depth - 1, -Infinity, Infinity, true)\<close>.
\<close>

definition root_score :: "nat \<Rightarrow> 'g engine \<Rightarrow> 'g \<Rightarrow> int \<Rightarrow> move \<Rightarrow> score option" where
  "root_score fuel eng g depth m =
    map_option fst
      (minimax fuel eng (do_move eng m \<lparr>game = g, evalCalls = 0, pending = []\<rparr>) (depth - 1)
         NegInfinity Infinity True)"

text \<open>
  What a call with the window \<open>(alpha, beta)\<close> returns, against the value \<open>t\<close> of the
  full traversal: a result below \<open>beta\<close> is an upper bound of \<open>t\<close>, a result above
  \<open>alpha\<close> is a lower bound of \<open>t\<close>.
\<close>

definition fail_soft :: "score \<Rightarrow> score \<Rightarrow> score \<Rightarrow> score \<Rightarrow> bool" where
  "fail_soft alpha beta v t \<longleftrightarrow> (v < beta \<longrightarrow> t \<le> v) \<and> (alpha < v \<longrightarrow> v \<le> t)"

text \<open>
  A call returns, with the \<^verbatim>\<open>Chess\<close> object and the stack of pending moves as they
  were on entry, and with a result that is related to \<open>t\<close> as above when the window
  is not empty.
\<close>

definition returns_restored ::
  "'g search_state \<Rightarrow> score \<Rightarrow> score \<Rightarrow> score \<Rightarrow> (score \<times> 'g search_state) option \<Rightarrow> bool" where
  "returns_restored st alpha beta t res \<longleftrightarrow>
    (\<exists>v st'. res = Some (v, st') \<and> game st' = game st \<and> pending st' = pending st
       \<and> evalCalls st \<le> evalCalls st' \<and> (alpha < beta \<longrightarrow> fail_soft alpha beta v t))"

text \<open>
  The choice the loop of \<^verbatim>\<open>findBestMove\<close> makes, given the score \<open>f m\<close> of every
  root move: a move replaces the current best only when its score is strictly lower.
\<close>

fun pick_best :: "(move \<Rightarrow> score) \<Rightarrow> move list \<Rightarrow> move option \<Rightarrow> score \<Rightarrow> move option \<times> score" where
  "pick_best f [] bestMove bestEval = (bestMove, bestEval)"
| "pick_best f (m # ms) bestMove bestEval =
    (if f m < bestEval then pick_best f ms (Some m) (f m) else pick_best f ms bestMove bestEval)"

text \<open>
  A score that is a number, neither \<^verbatim>\<open>-Infinity\<close> nor \<^verbatim>\<open>Infinity\<close>.
\<close>

fun is_Num :: "score \<Rightarrow> bool" where
  "is_Num (Num n) = True"
| "is_Num _ = False"

subsection \<open>Evaluation and move ordering\<close>

text \<open>
  The contribution of one square to \<^verbatim>\<open>evaluate\<close>: what the loop body adds to a score
  of 0.
\<close>

definition square_value :: "board \<Rightarrow> nat \<Rightarrow> nat \<Rightarrow> int" where
  "square_value board row col = evaluate_square board row col 0"

text \<open>
  The colour-reversed, vertically mirrored counterpart of a position: the rows of the
  board in reverse order, every piece with the other colour.
\<close>

fun flip_color :: "Color \<Rightarrow> Color" where
  "flip_color White = Black"
| "flip_color Black = White"

definition flip_piece :: "piece \<Rightarrow> piece" where
  "flip_piece p = p\<lparr>pcolor := flip_color (pcolor p)\<rparr>"

definition mirror_board :: "board \<Rightarrow> board" where
  "mirror_board b = rev (map (map (map_option flip_piece)) b)"

text \<open>
  The evaluation as the specification words it: for a white piece the value plus the
  table entry at the index \<open>row * 8 + col\<close> of its square in \<^verbatim>\<open>board()\<close>, for a
  black piece the value plus the table entry at the vertically mirrored index
  \<open>(7 - row) * 8 + col\<close>, White's sum minus Black's.
\<close>

definition claimed_evaluate :: "board \<Rightarrow> int" where
  "claimed_evaluate b =
    (\<Sum>row\<leftarrow>[0..<8]. \<Sum>col\<leftarrow>[0..<8].
       (case b ! row ! col of
          None \<Rightarrow> 0
        | Some piece \<Rightarrow>
           if pcolor piece = White
           then PIECE_VALUES (ptype piece) + PST_MAP (ptype piece) ! (row * 8 + col)
           else - (PIECE_VALUES (ptype piece) + PST_MAP (ptype piece) ! ((7 - row) * 8 + col))))"

text \<open>
  The priority the comparator of \<^verbatim>\<open>orderMoves\<close> computes for one move
  (\<open>scoreA\<close> for \<open>a\<close>, \<open>scoreB\<close> for \<open>b\<close>).
\<close>

definition move_priority :: "move \<Rightarrow> int" where
  "move_priority m =
    (case captured m of Some p \<Rightarrow> PIECE_VALUES p * 10 | None \<Rightarrow> 0)
    + (case promotion m of Some p \<Rightarrow> PIECE_VALUES p | None \<Rightarrow> 0)
    + (if CHR ''+'' \<in> set (san m) then 50 else 0)"

section \<open>A rules engine over explicit game trees\<close>

text \<open>
  A concrete rules engine, used to run the search on examples: a position is a node
  of a game tree, holding its board, whether it is drawn by rule (chess.js reports a
  drawn game as over although it has legal moves), and its legal moves, each with the
  position it leads to. The state of the \<^verbatim>\<open>Chess\<close> object is the current node and
  the stack of nodes that \<^verbatim>\<open>undo\<close> returns to.
\<close>

datatype tree = Node (tree_board: board) (tree_drawn: bool) (tree_children: "(move \<times> tree) list")

type_synonym tree_game = "tree \<times> tree list"

definition tree_move :: "tree_game \<Rightarrow> move \<Rightarrow> tree_game" where
  "tree_move g m =
    (case map_of (tree_children (fst g)) m of
       Some child \<Rightarrow> (child, fst g # snd g)
     | None \<Rightarrow> g)"

definition tree_undo :: "tree_game \<Rightarrow> tree_game" where
  "tree_undo g = (case snd g of [] \<Rightarrow> g | parent # rest \<Rightarrow> (parent, rest))"

definition tree_engine :: "(string \<Rightarrow> tree option) \<Rightarrow> tree_game engine" where
  "tree_engine load =
    \<lparr> new_Chess = (\<lambda>fen. map_option (\<lambda>t. (t, [])) (load fen)),
      game_board = (\<lambda>g. tree_board (fst g)),
      game_moves = (\<lambda>g. map fst (tree_children (fst g))),
      game_move = tree_move,
      game_undo = tree_undo,
      game_isGameOver = (\<lambda>g. tree_drawn (fst g) \<or> tree_children (fst g) = []) \<rparr>"

abbreviation wP :: "piece option" where "wP \<equiv> Some \<lparr>ptype = Pawn, pcolor = White\<rparr>"

abbreviation wN :: "piece option" where "wN \<equiv> Some \<lparr>ptype = Knight, pcolor = White\<rparr>"

abbreviation wB :: "piece option" where "wB \<equiv> Some \<lparr>ptype = Bishop, pcolor = White\<rparr>"

abbreviation wR :: "piece option" where "wR \<equiv> Some \<lparr>ptype = Rook, pcolor = White\<rparr>"

abbreviation wQ :: "piece option" where "wQ \<equiv> Some \<lparr>ptype = Queen, pcolor = White\<rparr>"

abbreviation wK :: "piece option" where "wK \<equiv> Some \<lparr>ptype = King, pcolor = White\<rparr>"

abbreviation bP :: "piece option" where "bP \<equiv> Some \<lparr>ptype = Pawn, pcolor = Black\<rparr>"

abbreviation bN :: "piece option" where "bN \<equiv> Some \<lparr>ptype = Knight, pcolor = Black\<rparr>"

abbreviation bB :: "piece option" where "bB \<equiv> Some \<lparr>ptype = Bishop, pcolor = Black\<rparr>"

abbreviation bR :: "piece option" where "bR \<equiv> Some \<lparr>ptype = Rook, pcolor = Black\<rparr>"

abbreviation bQ :: "piece option" where "bQ \<equiv> Some \<lparr>ptype = Queen, pcolor = Black\<rparr>"

abbreviation bK :: "piece option" where "bK \<equiv> Some \<lparr>ptype = King, pcolor = Black\<rparr>"

abbreviation ee :: "piece option" where "ee \<equiv> None"

text \<open>
  The position after 1. e4 from the starting position, as \<^verbatim>\<open>board()\<close> returns it
  (rank 8 first), and the same position with colours reversed and ranks mirrored.
\<close>

definition board_after_e4 :: board where
  "board_after_e4 =
    [[bR, bN, bB, bQ, bK, bB, bN, bR],
     [bP, bP, bP, bP, bP, bP, bP, bP],
     [ee, ee, ee, ee, ee, ee, ee, ee],
     [ee, ee, ee, ee, ee, ee, ee, ee],
     [ee, ee, ee, ee, wP, ee, ee, ee],
     [ee, ee, ee, ee, ee, ee, ee, ee],
     [wP, wP, wP, wP, ee, wP, wP, wP],
     [wR, wN, wB, wQ, wK, wB, wN, wR]]"

definition board_after_e4_reversed :: board where
  "board_after_e4_reversed =
    [[bR, bN, bB, bQ, bK, bB, bN, bR],
     [bP, bP, bP, bP, ee, bP, bP, bP],
     [ee, ee, ee, ee, ee, ee, ee, ee],
     [ee, ee, ee, ee, bP, ee, ee, ee],
     [ee, ee, ee, ee, ee, ee, ee, ee],
     [ee, ee, ee, ee, ee, ee, ee, ee],
     [wP, wP, wP, wP, wP, wP, wP, wP],
     [wR, wN, wB, wQ, wK, wB, wN, wR]]"

text \<open>
  Example positions. \<open>plain_move\<close> moves the piece on the square \<^verbatim>\<open>from\<close> to
  the square \<^verbatim>\<open>to\<close> of a move (a capture replaces the piece there), which is
  what chess.js does to the board for a move that is neither castling, en passant nor
  a promotion; a square is a file letter and a rank digit, row 0 being rank 8.
\<close>

definition square_col :: "string \<Rightarrow> nat" where
  "square_col sq = of_char (sq ! 0) - 97"

definition square_row :: "string \<Rightarrow> nat" where
  "square_row sq = 8 - (of_char (sq ! 1) - 48)"

definition put_piece :: "board \<Rightarrow> nat \<Rightarrow> nat \<Rightarrow> piece option \<Rightarrow> board" where
  "put_piece b row col p = b[row := (b ! row)[col := p]]"

definition plain_move :: "board \<Rightarrow> move \<Rightarrow> board" where
  "plain_move b m =
    (let p = b ! square_row (mfrom m) ! square_col (mfrom m);
         b1 = put_piece b (square_row (mfrom m)) (square_col (mfrom m)) None
     in put_piece b1 (square_row (mto m)) (square_col (mto m)) p)"

definition quiet :: "string \<Rightarrow> string \<Rightarrow> string \<Rightarrow> move" where
  "quiet f t s = \<lparr>mfrom = f, mto = t, captured = None, promotion = None, san = s\<rparr>"

text \<open>
  A position with mate in one: Black (to move) has king h8, pawns g7 and h7 and a rook
  on d5; White has king g1, pawns f2, g2, h2 and a queen on c5. \<^verbatim>\<open>Rd1#\<close> is
  checkmate (the white king is shut in by its own pawns and the queen can neither
  take the rook nor interpose), and \<^verbatim>\<open>Rxc5\<close> takes the queen. \<open>mate_moves\<close>
  are the 17 legal moves of Black in the order chess.js generates them.
  \<open>mate_tree\<close> holds the position after each of them; below that the tree is cut
  to one reply of White (\<^verbatim>\<open>Kh1\<close>, legal after each move but \<^verbatim>\<open>Rd1#\<close>), which a
  search of depth 1 never looks at. \<open>mated_tree\<close> is the position after
  \<^verbatim>\<open>Rd1#\<close>, in which White has no legal move.
\<close>

definition mate_board :: board where
  "mate_board =
    [[ee, ee, ee, ee, ee, ee, ee, bK],
     [ee, ee, ee, ee, ee, ee, bP, bP],
     [ee, ee, ee, ee, ee, ee, ee, ee],
     [ee, ee, wQ, bR, ee, ee, ee, ee],
     [ee, ee, ee, ee, ee, ee, ee, ee],
     [ee, ee, ee, ee, ee, ee, ee, ee],
     [ee, ee, ee, ee, ee, wP, wP, wP],
     [ee, ee, ee, ee, ee, ee, wK, ee]]"

definition move_Rd1 :: move where "move_Rd1 = quiet ''d5'' ''d1'' ''Rd1#''"

definition move_Rxc5 :: move where
  "move_Rxc5 = \<lparr>mfrom = ''d5'', mto = ''c5'', captured = Some Queen, promotion = None, san = ''Rxc5''\<rparr>"

definition move_Kg8 :: move where "move_Kg8 = quiet ''h8'' ''g8'' ''Kg8''"

definition move_Kh1 :: move where "move_Kh1 = quiet ''g1'' ''h1'' ''Kh1''"

definition mate_moves :: "move list" where
  "mate_moves =
    [move_Kg8,
     quiet ''g7'' ''g6'' ''g6'', quiet ''g7'' ''g5'' ''g5'',
     quiet ''h7'' ''h6'' ''h6'', quiet ''h7'' ''h5'' ''h5'',
     quiet ''d5'' ''d6'' ''Rd6'', quiet ''d5'' ''d7'' ''Rd7'', quiet ''d5'' ''d8'' ''Rd8'',
     quiet ''d5'' ''e5'' ''Re5'', quiet ''d5'' ''f5'' ''Rf5'', quiet ''d5'' ''g5'' ''Rg5'',
     quiet ''d5'' ''h5'' ''Rh5'',
     quiet ''d5'' ''d4'' ''Rd4'', quiet ''d5'' ''d3'' ''Rd3'', quiet ''d5'' ''d2'' ''Rd2'',
     move_Rd1, move_Rxc5]"

definition mate_tree :: tree where
  "mate_tree =
    Node mate_board False
      (map (\<lambda>m. (m, if m = move_Rd1 then Node (plain_move mate_board m) False []
                     else Node (plain_move mate_board m) False
                            [(move_Kh1, Node (plain_move (plain_move mate_board m) move_Kh1) False [])]))
         mate_moves)"

definition mate_fen :: string where
  "mate_fen = ''7k/6pp/8/2Qr4/8/8/5PPP/6K1 b - - 0 1''"

definition mated_tree :: tree where
  "mated_tree = Node (plain_move mate_board move_Rd1) False []"

definition mated_fen :: string where
  "mated_fen = ''7k/6pp/8/2Q5/8/8/5PPP/3r2K1 w - - 1 2''"

definition mate_engine :: "tree_game engine" where
  "mate_engine = tree_engine [mate_fen \<mapsto> mate_tree, mated_fen \<mapsto> mated_tree]"

text \<open>
  A hand-constructed tree of two plies: kings on e1 and e8, a white pawn on a2 and a
  black pawn on a7, Black to move. The tree keeps the pawn moves only: Black plays
  \<^verbatim>\<open>a6\<close> or \<^verbatim>\<open>a5\<close>, White answers \<^verbatim>\<open>a3\<close> or \<^verbatim>\<open>a4\<close>.
  \<open>pawn_board wr br\<close> is the board with the white pawn on row \<open>wr\<close> and the black
  pawn on row \<open>br\<close> of the a-file.
\<close>

definition pawn_board :: "nat \<Rightarrow> nat \<Rightarrow> board" where
  "pawn_board wr br =
    put_piece (put_piece (put_piece (put_piece (replicate 8 (replicate 8 ee)) 0 4 bK) 7 4 wK)
      wr 0 wP) br 0 bP"

definition move_a6 :: move where "move_a6 = quiet ''a7'' ''a6'' ''a6''"

definition move_a5 :: move where "move_a5 = quiet ''a7'' ''a5'' ''a5''"

definition move_a3 :: move where "move_a3 = quiet ''a2'' ''a3'' ''a3''"

definition move_a4 :: move where "move_a4 = quiet ''a2'' ''a4'' ''a4''"

definition scenario_a6 :: tree where
  "scenario_a6 = Node (pawn_board 6 2) False
     [(move_a3, Node (pawn_board 5 2) False []), (move_a4, Node (pawn_board 4 2) False [])]"

definition scenario_a5 :: tree where
  "scenario_a5 = Node (pawn_board 6 3) False
     [(move_a3, Node (pawn_board 5 3) False []), (move_a4, Node (pawn_board 4 3) False [])]"

definition scenario_tree :: tree where
  "scenario_tree = Node (pawn_board 6 1) False [(move_a6, scenario_a6), (move_a5, scenario_a5)]"

definition scenario_fen :: string where
  "scenario_fen = ''4k3/p7/8/8/8/8/P7/4K3 b - - 0 1''"

definition scenario_engine :: "tree_game engine" where
  "scenario_engine = tree_engine [scenario_fen \<mapsto> scenario_tree]"

section \<open>Lemmas\<close>

subsection \<open>Evaluation\<close>

lemma evaluate_square_acc: "evaluate_square b r c s = s + square_value b r c"
  by (simp add: evaluate_square_def square_value_def Let_def split: option.splits)

lemma evaluate_board_sum:
  "evaluate_board b = (\<Sum>row\<leftarrow>[0..<8]. \<Sum>col\<leftarrow>[0..<8]. square_value b row col)"
proof -
  have inner: "fold (evaluate_square b row) cs s = s + (\<Sum>col\<leftarrow>cs. square_value b row col)"
    for row cs s
    by (induction cs arbitrary: s) (simp_all add: evaluate_square_acc[of b row _ "_ :: int"])
  have outer: "fold (\<lambda>row. fold (evaluate_square b row) cs) rs s
      = s + (\<Sum>row\<leftarrow>rs. \<Sum>col\<leftarrow>cs. square_value b row col)" for rs cs s
    by (induction rs arbitrary: s) (simp_all add: inner)
  show ?thesis
    unfolding evaluate_board_def by (simp add: outer)
qed

lemma upt8: "[0..<8] = [0, 1, 2, 3, 4, 5, 6, 7::nat]"
  by (simp add: upt_rec)

lemma mirror_nth:
  assumes "wf_board b" "row < 8" "col < 8"
  shows "mirror_board b ! row ! col = map_option flip_piece (b ! (7 - row) ! col)"
proof -
  from assms have len: "length b = 8" and r: "length (b ! (7 - row)) = 8"
    by (auto simp: wf_board_def list_all_length)
  have "mirror_board b ! row = map (map_option flip_piece) (b ! (7 - row))"
    using len assms(2) by (simp add: mirror_board_def rev_nth)
  then show ?thesis using r assms(3) by simp
qed

lemma square_value_mirror:
  assumes "wf_board b" "row < 8" "col < 8"
  shows "square_value (mirror_board b) row col = - square_value b (7 - row) col"
  using assms(2)
  by (cases "b ! (7 - row) ! col"; cases "pcolor (the (b ! (7 - row) ! col))")
     (simp_all add: square_value_def evaluate_square_def mirror_nth[OF assms] flip_piece_def Let_def)

lemma evaluate_board_mirror:
  assumes "wf_board b"
  shows "evaluate_board (mirror_board b) = - evaluate_board b"
proof -
  define R where "R = (\<lambda>b row. \<Sum>col\<leftarrow>[0..<8]. square_value b row col)"
  have row: "R (mirror_board b) row = - R b (7 - row)" if "row < 8" for row
    using that unfolding R_def by (simp add: upt8 square_value_mirror[OF assms])
  have "evaluate_board c = (\<Sum>row\<leftarrow>[0..<8]. R c row)" for c
    by (simp add: evaluate_board_sum R_def)
  then show ?thesis
    by (simp add: upt8 row)
qed

lemma board_after_e4_value: "evaluate_board board_after_e4 = - 25"
  by code_simp

lemma claimed_after_e4: "claimed_evaluate board_after_e4 = 40"
  by code_simp

subsection \<open>The contract of the rules engine\<close>

lemma undo_restores_here:
  "undo_restores eng g \<Longrightarrow> m \<in> set (game_moves eng g) \<Longrightarrow> game_undo eng (game_move eng g m) = g"
  unfolding undo_restores_def
  by (drule spec[of _ "[]"]) (simp add: play_def)

lemma undo_restores_step:
  assumes "undo_restores eng g" "m \<in> set (game_moves eng g)"
  shows "undo_restores eng (game_move eng g m)"
  unfolding undo_restores_def
proof (intro allI impI)
  fix ms assume "legal_path eng (game_move eng g m) ms"
  with assms(2) have "legal_path eng g (m # ms)" by simp
  with assms(1) show "\<forall>m' \<in> set (game_moves eng (play eng (game_move eng g m) ms)).
         game_undo eng (game_move eng (play eng (game_move eng g m) ms) m')
           = play eng (game_move eng g m) ms"
    unfolding undo_restores_def by (drule_tac x = "m # ms" in spec) (simp add: play_def)
qed

lemma game_over_reported_here:
  "game_over_reported eng g \<Longrightarrow> game_moves eng g = [] \<Longrightarrow> game_isGameOver eng g"
  unfolding game_over_reported_def
  by (drule spec[of _ "[]"]) (simp add: play_def)

lemma game_over_reported_step:
  assumes "game_over_reported eng g" "m \<in> set (game_moves eng g)"
  shows "game_over_reported eng (game_move eng g m)"
  unfolding game_over_reported_def
proof (intro allI impI)
  fix ms assume "legal_path eng (game_move eng g m) ms"
    and "game_moves eng (play eng (game_move eng g m) ms) = []"
  with assms(2) have "legal_path eng g (m # ms)" "game_moves eng (play eng g (m # ms)) = []"
    by (simp_all add: play_def)
  with assms(1) have "game_isGameOver eng (play eng g (m # ms))"
    unfolding game_over_reported_def by blast
  then show "game_isGameOver eng (play eng (game_move eng g m) ms)"
    by (simp add: play_def)
qed

subsection \<open>Move ordering\<close>

lemma mset_sort_insert: "mset (sort_insert c x ys) = add_mset x (mset ys)"
  by (induction ys) simp_all

lemma mset_sorted_by: "mset (sorted_by c xs) = mset xs"
  unfolding sorted_by_def by (induction xs) (simp_all add: mset_sort_insert)

lemma orderMoves_of_eq: "orderMoves_of ms = sorted_by orderMoves_compare ms"
  by (simp add: orderMoves_of_def orderMoves_def Array_sort_def)

lemma mset_orderMoves_of: "mset (orderMoves_of ms) = mset ms"
  by (simp add: orderMoves_of_eq mset_sorted_by)

lemma set_orderMoves_of: "set (orderMoves_of ms) = set ms"
  using mset_orderMoves_of[of ms] by (metis set_mset_mset)

lemma orderMoves_compare_priority: "orderMoves_compare a b = move_priority b - move_priority a"
  by (simp add: orderMoves_compare_def move_priority_def Let_def split: option.splits)

lemma set_sort_insert: "set (sort_insert c x ys) = insert x (set ys)"
  by (induction ys) auto

lemma sorted_sort_insert:
  "sorted_wrt (\<lambda>a b. move_priority b \<le> move_priority a) ys
    \<Longrightarrow> sorted_wrt (\<lambda>a b. move_priority b \<le> move_priority a) (sort_insert orderMoves_compare x ys)"
  by (induction ys) (auto simp: set_sort_insert orderMoves_compare_priority)

lemma sorted_sorted_by:
  "sorted_wrt (\<lambda>a b. move_priority b \<le> move_priority a) (sorted_by orderMoves_compare xs)"
  unfolding sorted_by_def by (induction xs) (simp_all add: sorted_sort_insert)

lemma filter_sort_insert:
  "filter (\<lambda>m. move_priority m = p) (sort_insert orderMoves_compare x ys)
    = filter (\<lambda>m. move_priority m = p) (x # ys)"
  by (induction ys) (auto simp: orderMoves_compare_priority)

lemma filter_sorted_by:
  "filter (\<lambda>m. move_priority m = p) (sorted_by orderMoves_compare xs)
    = filter (\<lambda>m. move_priority m = p) xs"
  unfolding sorted_by_def by (induction xs) (simp_all add: filter_sort_insert)

subsection \<open>Windows and scores\<close>

lemma fail_soft_full: "fail_soft NegInfinity Infinity v t \<Longrightarrow> v = t"
  unfolding fail_soft_def
  by (cases v; cases t) (auto simp: less_score_def)

lemma fail_soft_refl: "fail_soft alpha beta v v"
  by (simp add: fail_soft_def)

lemma max_cut:
  "alpha < beta \<Longrightarrow> cur \<le> alpha \<Longrightarrow> fail_soft alpha beta e t \<Longrightarrow> beta \<le> max alpha e
    \<Longrightarrow> fail_soft alpha beta (max cur e) (max cur (max t u))"
  unfolding fail_soft_def by (auto simp: le_max_iff_disj less_max_iff_disj)

lemma max_go:
  "alpha < beta \<Longrightarrow> cur \<le> alpha \<Longrightarrow> fail_soft alpha beta e t \<Longrightarrow> \<not> beta \<le> max alpha e
    \<Longrightarrow> fail_soft (max alpha e) beta r (max (max cur e) u)
    \<Longrightarrow> fail_soft alpha beta r (max cur (max t u))"
  unfolding fail_soft_def by (auto simp: le_max_iff_disj less_max_iff_disj)

lemma min_cut:
  "alpha < beta \<Longrightarrow> beta \<le> cur \<Longrightarrow> fail_soft alpha beta e t \<Longrightarrow> min beta e \<le> alpha
    \<Longrightarrow> fail_soft alpha beta (min cur e) (min cur (min t u))"
  unfolding fail_soft_def by (auto simp: min_le_iff_disj min_less_iff_disj)

lemma min_go:
  "alpha < beta \<Longrightarrow> beta \<le> cur \<Longrightarrow> fail_soft alpha beta e t \<Longrightarrow> \<not> min beta e \<le> alpha
    \<Longrightarrow> fail_soft alpha (min beta e) r (min (min cur e) u)
    \<Longrightarrow> fail_soft alpha beta r (min cur (min t u))"
  unfolding fail_soft_def by (auto simp: min_le_iff_disj min_less_iff_disj)

lemma NegInfinity_least [simp]: "NegInfinity \<le> (x::score)"
  by simp

lemma Infinity_greatest [simp]: "(x::score) \<le> Infinity"
  by (cases x) simp_all

lemma max_NegInfinity [simp]: "max NegInfinity (x::score) = x"
  by (simp add: max_def)

lemma min_Infinity [simp]: "min Infinity (x::score) = x"
  by (cases x) (simp_all add: min_def)

lemma fold_max_acc: "fold max xs (max x a) = max x (fold max xs (a::score))"
proof (induction xs arbitrary: a)
  case Nil
  show ?case by simp
next
  case (Cons y xs)
  have "fold max (y # xs) (max x a) = fold max xs (max x (max y a))"
    by (simp add: max.left_commute[of y x a])
  also have "\<dots> = max x (fold max xs (max y a))"
    by (rule Cons.IH)
  finally show ?case by simp
qed

lemma fold_min_acc: "fold min xs (min x a) = min x (fold min xs (a::score))"
proof (induction xs arbitrary: a)
  case Nil
  show ?case by simp
next
  case (Cons y xs)
  have "fold min (y # xs) (min x a) = fold min xs (min x (min y a))"
    by (simp add: min.left_commute[of y x a])
  also have "\<dots> = min x (fold min xs (min y a))"
    by (rule Cons.IH)
  finally show ?case by simp
qed

lemma fold_max_Cons: "fold max (x # xs) NegInfinity = max x (fold max xs NegInfinity)"
  using fold_max_acc[of xs x NegInfinity] by (simp add: max.commute)

lemma fold_min_Cons: "fold min (x # xs) Infinity = min x (fold min xs Infinity)"
  using fold_min_acc[of xs x Infinity] by (simp add: min.commute)

subsection \<open>The pruned search against the full traversal\<close>

lemma minimax_max_ok:
  assumes child: "\<And>m st a b. m \<in> set ms \<Longrightarrow> game st = game_move eng g m
      \<Longrightarrow> returns_restored st a b (tv m) (recurse st a b)"
    and undo: "\<And>m. m \<in> set ms \<Longrightarrow> game_undo eng (game_move eng g m) = g"
    and g: "game st = g"
  shows "\<exists>r st'. minimax_max recurse eng st ms alpha beta cur = Some (r, st')
      \<and> game st' = g \<and> pending st' = pending st \<and> evalCalls st \<le> evalCalls st'
      \<and> (alpha < beta \<longrightarrow> cur \<le> alpha
           \<longrightarrow> fail_soft alpha beta r (max cur (fold max (map tv ms) NegInfinity)))"
  using assms
proof (induction ms arbitrary: st alpha cur)
  case Nil
  then show ?case by (simp add: fail_soft_refl)
next
  case (Cons m ms)
  have "returns_restored (do_move eng m st) alpha beta (tv m) (recurse (do_move eng m st) alpha beta)"
    using Cons.prems(1)[of m "do_move eng m st" alpha beta] Cons.prems(3)
    by (simp add: do_move_def)
  then obtain v st1 where r: "recurse (do_move eng m st) alpha beta = Some (v, st1)"
    and g1: "game st1 = game_move eng g m"
    and p1: "pending st1 = m # pending st"
    and c1: "evalCalls st \<le> evalCalls st1"
    and fs: "alpha < beta \<Longrightarrow> fail_soft alpha beta v (tv m)"
    using Cons.prems(3) by (auto simp: returns_restored_def do_move_def)
  let ?st2 = "do_undo eng st1"
  have g2: "game ?st2 = g" using g1 Cons.prems(2)[of m] by (simp add: do_undo_def)
  have c2: "evalCalls st \<le> evalCalls ?st2" using c1 by (simp add: do_undo_def)
  have p2: "pending ?st2 = pending st" using p1 by (simp add: do_undo_def)
  let ?U = "fold max (map tv ms) NegInfinity"
  have U: "fold max (map tv (m # ms)) NegInfinity = max (tv m) ?U"
    using fold_max_Cons[of "tv m" "map tv ms"] by simp
  show ?case
  proof (cases "beta \<le> max alpha v")
    case True
    then have "minimax_max recurse eng st (m # ms) alpha beta cur = Some (max cur v, ?st2)"
      using r by (simp add: Let_def)
    moreover have "fail_soft alpha beta (max cur v) (max cur (max (tv m) ?U))"
      if "alpha < beta" "cur \<le> alpha"
      using max_cut[OF that fs[OF that(1)] True] .
    ultimately show ?thesis using g2 c2 p2 U by simp
  next
    case False
    have eq: "minimax_max recurse eng st (m # ms) alpha beta cur
        = minimax_max recurse eng ?st2 ms (max alpha v) beta (max cur v)"
      using r False by (simp add: Let_def)
    obtain r' st' where
      res: "minimax_max recurse eng ?st2 ms (max alpha v) beta (max cur v) = Some (r', st')"
      and g': "game st' = g" and c': "evalCalls ?st2 \<le> evalCalls st'"
      and p': "pending st' = pending ?st2"
      and fs': "max alpha v < beta \<Longrightarrow> max cur v \<le> max alpha v
          \<Longrightarrow> fail_soft (max alpha v) beta r' (max (max cur v) ?U)"
      using Cons.IH[of ?st2 "max alpha v" "max cur v"] Cons.prems(1,2) g2 by auto
    have "fail_soft alpha beta r' (max cur (max (tv m) ?U))" if "alpha < beta" "cur \<le> alpha"
    proof -
      have "max alpha v < beta" using False by (simp add: not_le)
      moreover have "max cur v \<le> max alpha v" using that(2) by (intro max.mono) simp_all
      ultimately show ?thesis
        using max_go[OF that fs[OF that(1)] False] fs' by blast
    qed
    then show ?thesis using eq res g' c' c2 p' p2 U by simp
  qed
qed

lemma minimax_min_ok:
  assumes child: "\<And>m st a b. m \<in> set ms \<Longrightarrow> game st = game_move eng g m
      \<Longrightarrow> returns_restored st a b (tv m) (recurse st a b)"
    and undo: "\<And>m. m \<in> set ms \<Longrightarrow> game_undo eng (game_move eng g m) = g"
    and g: "game st = g"
  shows "\<exists>r st'. minimax_min recurse eng st ms alpha beta cur = Some (r, st')
      \<and> game st' = g \<and> pending st' = pending st \<and> evalCalls st \<le> evalCalls st'
      \<and> (alpha < beta \<longrightarrow> beta \<le> cur
           \<longrightarrow> fail_soft alpha beta r (min cur (fold min (map tv ms) Infinity)))"
  using assms
proof (induction ms arbitrary: st beta cur)
  case Nil
  then show ?case by (simp add: fail_soft_refl)
next
  case (Cons m ms)
  have "returns_restored (do_move eng m st) alpha beta (tv m) (recurse (do_move eng m st) alpha beta)"
    using Cons.prems(1)[of m "do_move eng m st" alpha beta] Cons.prems(3)
    by (simp add: do_move_def)
  then obtain v st1 where r: "recurse (do_move eng m st) alpha beta = Some (v, st1)"
    and g1: "game st1 = game_move eng g m"
    and p1: "pending st1 = m # pending st"
    and c1: "evalCalls st \<le> evalCalls st1"
    and fs: "alpha < beta \<Longrightarrow> fail_soft alpha beta v (tv m)"
    using Cons.prems(3) by (auto simp: returns_restored_def do_move_def)
  let ?st2 = "do_undo eng st1"
  have g2: "game ?st2 = g" using g1 Cons.prems(2)[of m] by (simp add: do_undo_def)
  have c2: "evalCalls st \<le> evalCalls ?st2" using c1 by (simp add: do_undo_def)
  have p2: "pending ?st2 = pending st" using p1 by (simp add: do_undo_def)
  let ?U = "fold min (map tv ms) Infinity"
  have U: "fold min (map tv (m # ms)) Infinity = min (tv m) ?U"
    using fold_min_Cons[of "tv m" "map tv ms"] by simp
  show ?case
  proof (cases "min beta v \<le> alpha")
    case True
    then have "minimax_min recurse eng st (m # ms) alpha beta cur = Some (min cur v, ?st2)"
      using r by (simp add: Let_def)
    moreover have "fail_soft alpha beta (min cur v) (min cur (min (tv m) ?U))"
      if "alpha < beta" "beta \<le> cur"
      using min_cut[OF that fs[OF that(1)] True] .
    ultimately show ?thesis using g2 c2 p2 U by simp
  next
    case False
    have eq: "minimax_min recurse eng st (m # ms) alpha beta cur
        = minimax_min recurse eng ?st2 ms alpha (min beta v) (min cur v)"
      using r False by (simp add: Let_def)
    obtain r' st' where
      res: "minimax_min recurse eng ?st2 ms alpha (min beta v) (min cur v) = Some (r', st')"
      and g': "game st' = g" and c': "evalCalls ?st2 \<le> evalCalls st'"
      and p': "pending st' = pending ?st2"
      and fs': "alpha < min beta v \<Longrightarrow> min beta v \<le> min cur v
          \<Longrightarrow> fail_soft alpha (min beta v) r' (min (min cur v) ?U)"
      using Cons.IH[of ?st2 "min beta v" "min cur v"] Cons.prems(1,2) g2 by auto
    have "fail_soft alpha beta r' (min cur (min (tv m) ?U))" if "alpha < beta" "beta \<le> cur"
    proof -
      have "alpha < min beta v" using False by (simp add: not_le)
      moreover have "min beta v \<le> min cur v" using that(2) by (intro min.mono) simp_all
      ultimately show ?thesis
        using min_go[OF that fs[OF that(1)] False] fs' by blast
    qed
    then show ?thesis using eq res g' c' c2 p' p2 U by simp
  qed
qed

lemma minimax_ok:
  "undo_restores eng (game st) \<Longrightarrow> 0 \<le> depth \<Longrightarrow> nat depth < fuel
    \<Longrightarrow> returns_restored st alpha beta (fullMinimax eng (game st) (nat depth) isMax)
          (minimax fuel eng st depth alpha beta isMax)"
proof (induction fuel arbitrary: st depth alpha beta isMax)
  case 0
  then show ?case by simp
next
  case (Suc fuel)
  let ?g = "game st"
  show ?case
  proof (cases "depth = 0 \<or> game_isGameOver eng ?g")
    case True
    then have "fullMinimax eng ?g (nat depth) isMax = Num (evaluate eng ?g)"
      by (cases "nat depth") auto
    then show ?thesis using True
      by (simp add: returns_restored_def call_evaluate_def fail_soft_refl)
  next
    case False
    then have pos: "0 < depth" and notover: "\<not> game_isGameOver eng ?g"
      using Suc.prems(2) by auto
    let ?d = "nat (depth - 1)"
    have nd: "nat depth = Suc ?d" using pos by simp
    let ?ms = "orderMoves_of (game_moves eng ?g)"
    have legal: "m \<in> set (game_moves eng ?g)" if "m \<in> set ?ms" for m
      using that by (simp add: set_orderMoves_of)
    have undo: "game_undo eng (game_move eng ?g m) = ?g" if "m \<in> set ?ms" for m
      using undo_restores_here[OF Suc.prems(1) legal[OF that]] .
    have child: "returns_restored st' a b (fullMinimax eng (game_move eng ?g m) ?d mx)
        (minimax fuel eng st' (depth - 1) a b mx)"
      if "m \<in> set ?ms" "game st' = game_move eng ?g m" for m st' a b mx
    proof -
      have "undo_restores eng (game st')"
        using undo_restores_step[OF Suc.prems(1) legal[OF that(1)]] that(2) by simp
      moreover have "0 \<le> depth - 1" "nat (depth - 1) < fuel"
        using pos Suc.prems(3) by auto
      ultimately show ?thesis
        using Suc.IH[of st' "depth - 1" a b mx] that(2) by simp
    qed
    show ?thesis
    proof (cases isMax)
      case True
      have run: "minimax (Suc fuel) eng st depth alpha beta isMax
          = minimax_max (\<lambda>st' a b. minimax fuel eng st' (depth - 1) a b False)
              eng st ?ms alpha beta NegInfinity"
        using False True by (simp add: Let_def)
      have full: "fullMinimax eng ?g (nat depth) isMax
          = fold max (map (\<lambda>m. fullMinimax eng (game_move eng ?g m) ?d False) ?ms) NegInfinity"
        using notover True by (simp add: nd Let_def)
      show ?thesis
        using minimax_max_ok[where recurse = "\<lambda>st' a b. minimax fuel eng st' (depth - 1) a b False"
            and tv = "\<lambda>m. fullMinimax eng (game_move eng ?g m) ?d False"
            and ms = ?ms and eng = eng and g = ?g and st = st and alpha = alpha and beta = beta
            and cur = NegInfinity, OF child undo refl]
        unfolding run full returns_restored_def by auto
    next
      case False
      have run: "minimax (Suc fuel) eng st depth alpha beta isMax
          = minimax_min (\<lambda>st' a b. minimax fuel eng st' (depth - 1) a b True)
              eng st ?ms alpha beta Infinity"
        using \<open>\<not> (depth = 0 \<or> game_isGameOver eng ?g)\<close> False by (simp add: Let_def)
      have full: "fullMinimax eng ?g (nat depth) isMax
          = fold min (map (\<lambda>m. fullMinimax eng (game_move eng ?g m) ?d True) ?ms) Infinity"
        using notover False by (simp add: nd Let_def)
      show ?thesis
        using minimax_min_ok[where recurse = "\<lambda>st' a b. minimax fuel eng st' (depth - 1) a b True"
            and tv = "\<lambda>m. fullMinimax eng (game_move eng ?g m) ?d True"
            and ms = ?ms and eng = eng and g = ?g and st = st and alpha = alpha and beta = beta
            and cur = Infinity, OF child undo refl]
        unfolding run full returns_restored_def by auto
    qed
  qed
qed

lemma minimax_full_window:
  assumes "undo_restores eng (game st)" "0 \<le> depth" "nat depth < fuel"
  shows "\<exists>st'. minimax fuel eng st depth NegInfinity Infinity isMax
      = Some (fullMinimax eng (game st) (nat depth) isMax, st')
      \<and> game st' = game st \<and> pending st' = pending st \<and> evalCalls st \<le> evalCalls st'"
proof -
  have lt: "NegInfinity < Infinity" by (simp add: less_score_def)
  from minimax_ok[OF assms, of NegInfinity Infinity isMax] lt
  obtain v st' where r: "minimax fuel eng st depth NegInfinity Infinity isMax = Some (v, st')"
    and fr: "game st' = game st" "pending st' = pending st" "evalCalls st \<le> evalCalls st'"
    and fs: "fail_soft NegInfinity Infinity v (fullMinimax eng (game st) (nat depth) isMax)"
    by (auto simp: returns_restored_def)
  show ?thesis using r fr fail_soft_full[OF fs] by simp
qed

lemma root_score_full:
  assumes "undo_restores eng g" "1 \<le> depth" "nat depth \<le> fuel" "m \<in> set (game_moves eng g)"
  shows "root_score fuel eng g depth m
      = Some (fullMinimax eng (game_move eng g m) (nat (depth - 1)) True)"
proof -
  let ?st = "do_move eng m \<lparr>game = g, evalCalls = 0, pending = []\<rparr>"
  have g: "game ?st = game_move eng g m" by (simp add: do_move_def)
  have "undo_restores eng (game ?st)"
    using undo_restores_step[OF assms(1,4)] g by simp
  moreover have "0 \<le> depth - 1" "nat (depth - 1) < fuel" using assms(2,3) by auto
  ultimately obtain st' where "minimax fuel eng ?st (depth - 1) NegInfinity Infinity True
      = Some (fullMinimax eng (game ?st) (nat (depth - 1)) True, st')"
    using minimax_full_window by blast
  then show ?thesis by (simp add: root_score_def g)
qed

lemma fullMinimax_game_over:
  "game_isGameOver eng g \<Longrightarrow> fullMinimax eng g d isMax = Num (evaluate eng g)"
  by (cases d) simp_all

subsection \<open>The root loop\<close>

lemma pick_best_snd: "snd (pick_best f ms bm be) = fold min (map f ms) be"
  by (induction ms arbitrary: bm be) (auto simp: min_def)

lemma pick_best_first:
  "(pick_best f ms bm be = (bm, be) \<and> (\<forall>m \<in> set ms. be \<le> f m))
   \<or> (\<exists>i < length ms. pick_best f ms bm be = (Some (ms ! i), f (ms ! i)) \<and> f (ms ! i) < be
        \<and> (\<forall>j < i. f (ms ! i) < f (ms ! j)) \<and> (\<forall>j < length ms. f (ms ! i) \<le> f (ms ! j)))"
proof (induction ms arbitrary: bm be)
  case Nil
  show ?case by simp
next
  case (Cons m ms)
  show ?case
  proof (cases "f m < be")
    case True
    from Cons.IH[of "Some m" "f m"] show ?thesis
    proof (elim disjE conjE exE)
      assume a: "pick_best f ms (Some m) (f m) = (Some m, f m)" "\<forall>x \<in> set ms. f m \<le> f x"
      have "\<forall>j < length (m # ms). f ((m # ms) ! 0) \<le> f ((m # ms) ! j)"
        using a(2) by (auto simp: nth_Cons' )
      then show ?thesis using a True
        by (intro disjI2 exI[of _ 0]) simp
    next
      fix i assume a: "i < length ms" "pick_best f ms (Some m) (f m) = (Some (ms ! i), f (ms ! i))"
        "f (ms ! i) < f m" "\<forall>j < i. f (ms ! i) < f (ms ! j)"
        "\<forall>j < length ms. f (ms ! i) \<le> f (ms ! j)"
      have 1: "\<forall>j < Suc i. f ((m # ms) ! Suc i) < f ((m # ms) ! j)"
        using a(3,4) by (auto simp: nth_Cons' )
      have 2: "\<forall>j < length (m # ms). f ((m # ms) ! Suc i) \<le> f ((m # ms) ! j)"
        using a(3,5) by (auto simp: nth_Cons' )
      have 3: "f ((m # ms) ! Suc i) < be" using a(3) True by simp
      show ?thesis using a(1,2) True 1 2 3
        by (intro disjI2 exI[of _ "Suc i"]) simp
    qed
  next
    case False
    from Cons.IH[of bm be] show ?thesis
    proof (elim disjE conjE exE)
      assume a: "pick_best f ms bm be = (bm, be)" "\<forall>x \<in> set ms. be \<le> f x"
      then show ?thesis using False by auto
    next
      fix i assume a: "i < length ms" "pick_best f ms bm be = (Some (ms ! i), f (ms ! i))"
        "f (ms ! i) < be" "\<forall>j < i. f (ms ! i) < f (ms ! j)"
        "\<forall>j < length ms. f (ms ! i) \<le> f (ms ! j)"
      have lt: "f (ms ! i) < f m" using a(3) False by simp
      have 1: "\<forall>j < Suc i. f ((m # ms) ! Suc i) < f ((m # ms) ! j)"
        using lt a(4) by (auto simp: nth_Cons' )
      have 2: "\<forall>j < length (m # ms). f ((m # ms) ! Suc i) \<le> f ((m # ms) ! j)"
        using lt a(5) by (auto simp: nth_Cons' )
      show ?thesis using a(1,2,3) False 1 2
        by (intro disjI2 exI[of _ "Suc i"]) simp
    qed
  qed
qed

lemma pick_best_keep: "\<forall>m \<in> set ms. be \<le> f m \<Longrightarrow> pick_best f ms bm be = (bm, be)"
  by (induction ms) (auto simp: not_less)

lemma findBestMove_loop_ok:
  assumes "undo_restores eng (game st)" "1 \<le> depth" "nat depth \<le> fuel"
    and "set ms \<subseteq> set (game_moves eng (game st))"
  shows "\<exists>st'. findBestMove_loop fuel eng st depth ms bm be
        = Some (pick_best (\<lambda>m. fullMinimax eng (game_move eng (game st) m) (nat (depth - 1)) True)
                  ms bm be, st')
      \<and> game st' = game st \<and> pending st' = pending st \<and> evalCalls st \<le> evalCalls st'"
  using assms
proof (induction ms arbitrary: st bm be)
  case Nil
  show ?case by simp
next
  case (Cons m ms)
  let ?g = "game st"
  let ?f = "\<lambda>m. fullMinimax eng (game_move eng ?g m) (nat (depth - 1)) True"
  have m: "m \<in> set (game_moves eng ?g)" using Cons.prems(4) by simp
  have "returns_restored (do_move eng m st) NegInfinity Infinity
      (fullMinimax eng (game (do_move eng m st)) (nat (depth - 1)) True)
      (minimax fuel eng (do_move eng m st) (depth - 1) NegInfinity Infinity True)"
  proof (rule minimax_ok)
    show "undo_restores eng (game (do_move eng m st))"
      using undo_restores_step[OF Cons.prems(1) m] by (simp add: do_move_def)
    show "0 \<le> depth - 1" using Cons.prems(2) by simp
    show "nat (depth - 1) < fuel" using Cons.prems(2,3) by simp
  qed
  then obtain v st1 where r: "minimax fuel eng (do_move eng m st) (depth - 1) NegInfinity Infinity True
        = Some (v, st1)"
    and g1: "game st1 = game_move eng ?g m" and p1: "pending st1 = m # pending st"
    and c1: "evalCalls st \<le> evalCalls st1"
    and fs: "fail_soft NegInfinity Infinity v (?f m)"
    by (auto simp: returns_restored_def do_move_def less_score_def)
  have v: "v = ?f m" using fail_soft_full[OF fs] .
  let ?st2 = "do_undo eng st1"
  have g2: "game ?st2 = ?g"
    using g1 undo_restores_here[OF Cons.prems(1) m] by (simp add: do_undo_def)
  have p2: "pending ?st2 = pending st" using p1 by (simp add: do_undo_def)
  have c2: "evalCalls st \<le> evalCalls ?st2" using c1 by (simp add: do_undo_def)
  have sub: "set ms \<subseteq> set (game_moves eng (game ?st2))" using Cons.prems(4) g2 by simp
  have ur: "undo_restores eng (game ?st2)" using Cons.prems(1) g2 by simp
  show ?case
  proof (cases "v < be")
    case True
    from Cons.IH[OF ur Cons.prems(2,3) sub, of "Some m" v]
    show ?thesis using r True v g2 p2 c2 by (auto simp: Let_def)
  next
    case False
    from Cons.IH[OF ur Cons.prems(2,3) sub, of bm be]
    show ?thesis using r False v g2 p2 c2 by (auto simp: Let_def)
  qed
qed

lemma findBestMove_run_loop:
  assumes "new_Chess eng fen = Some g" "undo_restores eng g" "1 \<le> depth" "nat depth \<le> fuel"
    and "game_moves eng g \<noteq> []"
  shows "\<exists>st'. findBestMove_run fuel eng fen depth
      = Some (Inr (fst (pick_best (\<lambda>m. fullMinimax eng (game_move eng g m) (nat (depth - 1)) True)
                     (orderMoves_of (game_moves eng g)) None Infinity), st'))
      \<and> game st' = g \<and> pending st' = []"
proof -
  let ?st = "\<lparr>game = g, evalCalls = 0, pending = []\<rparr>"
  let ?ms = "orderMoves_of (game_moves eng g)"
  have ne: "length ?ms \<noteq> 0"
    using assms(5) set_orderMoves_of[of "game_moves eng g"] by (cases ?ms) auto
  have "\<exists>st'. findBestMove_loop fuel eng ?st depth ?ms None Infinity
        = Some (pick_best (\<lambda>m. fullMinimax eng (game_move eng (game ?st) m) (nat (depth - 1)) True)
                  ?ms None Infinity, st')
      \<and> game st' = game ?st \<and> pending st' = pending ?st \<and> evalCalls ?st \<le> evalCalls st'"
    by (rule findBestMove_loop_ok) (simp_all add: assms set_orderMoves_of)
  then obtain st' where "findBestMove_loop fuel eng ?st depth ?ms None Infinity
        = Some (pick_best (\<lambda>m. fullMinimax eng (game_move eng g m) (nat (depth - 1)) True)
                  ?ms None Infinity, st')" "game st' = g" "pending st' = []"
    by auto
  then show ?thesis
    using assms(1) ne
    by (simp add: findBestMove_run_def Let_def split: prod.splits)
qed

subsection \<open>Finite scores\<close>

lemma is_Num_max: "is_Num a \<Longrightarrow> is_Num b \<Longrightarrow> is_Num (max a b)"
  by (simp add: max_def)

lemma is_Num_min: "is_Num a \<Longrightarrow> is_Num b \<Longrightarrow> is_Num (min a b)"
  by (simp add: min_def)

lemma is_Num_fold_max: "\<forall>x \<in> set xs. is_Num x \<Longrightarrow> is_Num a \<Longrightarrow> is_Num (fold max xs a)"
  by (induction xs arbitrary: a) (simp_all add: is_Num_max)

lemma is_Num_fold_min: "\<forall>x \<in> set xs. is_Num x \<Longrightarrow> is_Num a \<Longrightarrow> is_Num (fold min xs a)"
  by (induction xs arbitrary: a) (simp_all add: is_Num_min)

lemma is_Num_fold_max_ne:
  "xs \<noteq> [] \<Longrightarrow> \<forall>x \<in> set xs. is_Num x \<Longrightarrow> is_Num (fold max xs NegInfinity)"
  by (cases xs) (simp_all add: is_Num_fold_max)

lemma is_Num_fold_min_ne:
  "xs \<noteq> [] \<Longrightarrow> \<forall>x \<in> set xs. is_Num x \<Longrightarrow> is_Num (fold min xs Infinity)"
  by (cases xs) (simp_all add: is_Num_fold_min)

lemma fullMinimax_is_Num:
  "game_over_reported eng g \<Longrightarrow> is_Num (fullMinimax eng g d isMax)"
proof (induction d arbitrary: g isMax)
  case 0
  show ?case by simp
next
  case (Suc d)
  show ?case
  proof (cases "game_isGameOver eng g")
    case True
    then show ?thesis by simp
  next
    case False
    let ?ms = "orderMoves_of (game_moves eng g)"
    let ?cs = "map (\<lambda>m. fullMinimax eng (game_move eng g m) d (\<not> isMax)) ?ms"
    have "game_moves eng g \<noteq> []"
      using game_over_reported_here[OF Suc.prems] False by blast
    then have ne: "?cs \<noteq> []"
      using set_orderMoves_of[of "game_moves eng g"] by (cases ?ms) auto
    have all: "\<forall>x \<in> set ?cs. is_Num x"
      using Suc.IH game_over_reported_step[OF Suc.prems] by (auto simp: set_orderMoves_of)
    show ?thesis
      using False is_Num_fold_max_ne[OF ne all] is_Num_fold_min_ne[OF ne all]
      by (cases isMax) (simp_all add: Let_def)
  qed
qed

lemma is_Num_less_Infinity: "is_Num x \<Longrightarrow> x < Infinity"
  by (cases x) (simp_all add: less_score_def)

lemma findBestMove_choice:
  assumes "new_Chess eng fen = Some g" "undo_restores eng g" "game_over_reported eng g"
    and "1 \<le> depth" "nat depth \<le> fuel" "game_moves eng g \<noteq> []"
  shows "\<exists>i < length (orderMoves_of (game_moves eng g)).
      findBestMove fuel eng fen depth = Some (Inr (Some (orderMoves_of (game_moves eng g) ! i)))
      \<and> (\<forall>j < i. fullMinimax eng (game_move eng g (orderMoves_of (game_moves eng g) ! i))
                   (nat (depth - 1)) True
                 < fullMinimax eng (game_move eng g (orderMoves_of (game_moves eng g) ! j))
                   (nat (depth - 1)) True)
      \<and> (\<forall>j < length (orderMoves_of (game_moves eng g)).
            fullMinimax eng (game_move eng g (orderMoves_of (game_moves eng g) ! i))
                   (nat (depth - 1)) True
              \<le> fullMinimax eng (game_move eng g (orderMoves_of (game_moves eng g) ! j))
                   (nat (depth - 1)) True)"
proof -
  let ?ms = "orderMoves_of (game_moves eng g)"
  let ?f = "\<lambda>m. fullMinimax eng (game_move eng g m) (nat (depth - 1)) True"
  obtain st' where run: "findBestMove_run fuel eng fen depth
      = Some (Inr (fst (pick_best ?f ?ms None Infinity), st'))"
    using findBestMove_run_loop[OF assms(1,2,4,5,6)] by blast
  have ne: "?ms \<noteq> []"
    using assms(6) set_orderMoves_of[of "game_moves eng g"] by (cases ?ms) auto
  then obtain m0 where m0: "m0 \<in> set ?ms" by (cases ?ms) auto
  then have "m0 \<in> set (game_moves eng g)" by (simp add: set_orderMoves_of)
  then have "is_Num (?f m0)"
    using fullMinimax_is_Num[OF game_over_reported_step[OF assms(3)]] by blast
  then have "?f m0 < Infinity" by (rule is_Num_less_Infinity)
  then have "\<not> (\<forall>m \<in> set ?ms. Infinity \<le> ?f m)" using m0 by (auto simp: not_le)
  with pick_best_first[of ?f ?ms None Infinity]
  obtain i where i: "i < length ?ms" "pick_best ?f ?ms None Infinity = (Some (?ms ! i), ?f (?ms ! i))"
    "\<forall>j < i. ?f (?ms ! i) < ?f (?ms ! j)" "\<forall>j < length ?ms. ?f (?ms ! i) \<le> ?f (?ms ! j)"
    by blast
  have "findBestMove fuel eng fen depth = Some (Inr (Some (?ms ! i)))"
    using run i(2) by (simp add: findBestMove_def)
  then show ?thesis using i(1,3,4) by blast
qed

subsection \<open>Termination\<close>

lemma minimax_max_returns:
  "(\<And>st a b. \<exists>r. recurse st a b = Some r)
    \<Longrightarrow> \<exists>r. minimax_max recurse eng st ms alpha beta cur = Some r"
proof (induction ms arbitrary: st alpha cur)
  case Nil
  show ?case by simp
next
  case (Cons m ms)
  obtain v st1 where "recurse (do_move eng m st) alpha beta = Some (v, st1)"
    using Cons.prems[of "do_move eng m st" alpha beta] by auto
  then show ?case
    using Cons.IH[OF Cons.prems, of "do_undo eng st1" "max alpha v" "max cur v"]
    by (simp add: Let_def)
qed

lemma minimax_min_returns:
  "(\<And>st a b. \<exists>r. recurse st a b = Some r)
    \<Longrightarrow> \<exists>r. minimax_min recurse eng st ms alpha beta cur = Some r"
proof (induction ms arbitrary: st beta cur)
  case Nil
  show ?case by simp
next
  case (Cons m ms)
  obtain v st1 where "recurse (do_move eng m st) alpha beta = Some (v, st1)"
    using Cons.prems[of "do_move eng m st" alpha beta] by auto
  then show ?case
    using Cons.IH[OF Cons.prems, of "do_undo eng st1" "min beta v" "min cur v"]
    by (simp add: Let_def)
qed

lemma minimax_returns:
  "0 \<le> depth \<Longrightarrow> nat depth < fuel \<Longrightarrow> \<exists>r. minimax fuel eng st depth alpha beta isMax = Some r"
proof (induction fuel arbitrary: st depth alpha beta isMax)
  case 0
  then show ?case by simp
next
  case (Suc fuel)
  show ?case
  proof (cases "depth = 0 \<or> game_isGameOver eng (game st)")
    case True
    then show ?thesis by simp
  next
    case False
    then have "0 \<le> depth - 1" "nat (depth - 1) < fuel"
      using Suc.prems by auto
    then have rec: "\<exists>r. minimax fuel eng st' (depth - 1) a b mx = Some r" for st' a b mx
      using Suc.IH by blast
    show ?thesis
      using False minimax_max_returns[of "\<lambda>st' a b. minimax fuel eng st' (depth - 1) a b False", OF rec]
        minimax_min_returns[of "\<lambda>st' a b. minimax fuel eng st' (depth - 1) a b True", OF rec]
      by (simp add: Let_def)
  qed
qed

lemma findBestMove_loop_returns:
  "1 \<le> depth \<Longrightarrow> nat depth \<le> fuel
    \<Longrightarrow> \<exists>r. findBestMove_loop fuel eng st depth ms bm be = Some r"
proof (induction ms arbitrary: st bm be)
  case Nil
  show ?case by simp
next
  case (Cons m ms)
  have "0 \<le> depth - 1" "nat (depth - 1) < fuel" using Cons.prems by auto
  then obtain v st1 where
    "minimax fuel eng (do_move eng m st) (depth - 1) NegInfinity Infinity True = Some (v, st1)"
    using minimax_returns[of "depth - 1" fuel eng "do_move eng m st" NegInfinity Infinity True]
    by auto
  then show ?case
    using Cons.IH[OF Cons.prems, of "do_undo eng st1"] by (simp add: Let_def)
qed

subsection \<open>The tree engine\<close>

lemma tree_new_Chess [simp]: "new_Chess (tree_engine load) fen = map_option (\<lambda>t. (t, [])) (load fen)"
  by (simp add: tree_engine_def)

lemma tree_game_board [simp]: "game_board (tree_engine load) g = tree_board (fst g)"
  by (simp add: tree_engine_def)

lemma tree_game_moves [simp]: "game_moves (tree_engine load) g = map fst (tree_children (fst g))"
  by (simp add: tree_engine_def)

lemma tree_game_move [simp]: "game_move (tree_engine load) = tree_move"
  by (simp add: tree_engine_def)

lemma tree_game_undo [simp]: "game_undo (tree_engine load) = tree_undo"
  by (simp add: tree_engine_def)

lemma tree_game_isGameOver [simp]:
  "game_isGameOver (tree_engine load) g \<longleftrightarrow> tree_drawn (fst g) \<or> tree_children (fst g) = []"
  by (simp add: tree_engine_def)

lemma tree_undo_move:
  assumes "m \<in> set (map fst (tree_children (fst g)))"
  shows "tree_undo (tree_move g m) = g"
proof -
  from assms have "map_of (tree_children (fst g)) m \<noteq> None"
    by (simp add: map_of_eq_None_iff)
  then obtain child where "map_of (tree_children (fst g)) m = Some child" by blast
  then show ?thesis by (simp add: tree_move_def tree_undo_def)
qed

lemma tree_engine_undo_restores: "undo_restores (tree_engine load) g"
  unfolding undo_restores_def by (simp add: tree_undo_move del: set_map)

lemma tree_engine_game_over_reported: "game_over_reported (tree_engine load) g"
  unfolding game_over_reported_def by simp

lemma tree_move_child:
  "map_of (tree_children t) m = Some child \<Longrightarrow> tree_move (t, ps) m = (child, t # ps)"
  by (simp add: tree_move_def)

subsection \<open>The position with mate in one\<close>

lemma mate_values:
  "evaluate_board (plain_move mate_board move_Kg8) = 555"
  "evaluate_board (plain_move mate_board (quiet ''g7'' ''g6'' ''g6'')) = 585"
  "evaluate_board (plain_move mate_board (quiet ''g7'' ''g5'' ''g5'')) = 590"
  "evaluate_board (plain_move mate_board (quiet ''h7'' ''h6'' ''h6'')) = 585"
  "evaluate_board (plain_move mate_board (quiet ''h7'' ''h5'' ''h5'')) = 590"
  "evaluate_board (plain_move mate_board (quiet ''d5'' ''d6'' ''Rd6'')) = 545"
  "evaluate_board (plain_move mate_board (quiet ''d5'' ''d7'' ''Rd7'')) = 535"
  "evaluate_board (plain_move mate_board (quiet ''d5'' ''d8'' ''Rd8'')) = 545"
  "evaluate_board (plain_move mate_board (quiet ''d5'' ''e5'' ''Re5'')) = 545"
  "evaluate_board (plain_move mate_board (quiet ''d5'' ''f5'' ''Rf5'')) = 545"
  "evaluate_board (plain_move mate_board (quiet ''d5'' ''g5'' ''Rg5'')) = 545"
  "evaluate_board (plain_move mate_board (quiet ''d5'' ''h5'' ''Rh5'')) = 550"
  "evaluate_board (plain_move mate_board (quiet ''d5'' ''d4'' ''Rd4'')) = 545"
  "evaluate_board (plain_move mate_board (quiet ''d5'' ''d3'' ''Rd3'')) = 545"
  "evaluate_board (plain_move mate_board (quiet ''d5'' ''d2'' ''Rd2'')) = 545"
  "evaluate_board (plain_move mate_board move_Rd1) = 540"
  "evaluate_board (plain_move mate_board move_Rxc5) = - 360"
  by code_simp+

lemma mate_order: "orderMoves_of mate_moves = move_Rxc5 # butlast mate_moves"
  by code_simp

lemma mate_load: "new_Chess mate_engine mate_fen = Some (mate_tree, [])"
  by (simp add: mate_engine_def mate_fen_def mated_fen_def)

lemma mated_load: "new_Chess mate_engine mated_fen = Some (mated_tree, [])"
  by (simp add: mate_engine_def)

lemma mate_undo_restores: "undo_restores mate_engine g"
  by (simp add: mate_engine_def tree_engine_undo_restores)

lemma mate_game_over_reported: "game_over_reported mate_engine g"
  by (simp add: mate_engine_def tree_engine_game_over_reported)

lemma mate_game_moves: "game_moves mate_engine (mate_tree, []) = mate_moves"
  by (simp add: mate_engine_def mate_tree_def comp_def)

lemma mated_game_moves: "game_moves mate_engine (mated_tree, []) = []"
  by (simp add: mate_engine_def mated_tree_def)

lemma mate_child:
  assumes "m \<in> set mate_moves"
  shows "game_move mate_engine (mate_tree, []) m
    = (if m = move_Rd1 then Node (plain_move mate_board m) False []
       else Node (plain_move mate_board m) False
              [(move_Kh1, Node (plain_move (plain_move mate_board m) move_Kh1) False [])],
       [mate_tree])"
proof -
  have "map_of (tree_children mate_tree) m
      = Some (if m = move_Rd1 then Node (plain_move mate_board m) False []
       else Node (plain_move mate_board m) False
              [(move_Kh1, Node (plain_move (plain_move mate_board m) move_Kh1) False [])])"
    using assms unfolding mate_tree_def tree.sel
    by (simp add: map_of_map_restrict restrict_map_def)
  then show ?thesis
    by (simp add: mate_engine_def tree_move_child)
qed

lemma mate_child_evaluate:
  "m \<in> set mate_moves
    \<Longrightarrow> evaluate mate_engine (game_move mate_engine (mate_tree, []) m)
        = evaluate_board (plain_move mate_board m)"
  by (simp add: mate_child evaluate_def) (simp add: mate_engine_def)

lemma mate_Rd1_legal: "move_Rd1 \<in> set mate_moves"
  by (simp add: mate_moves_def)

lemma mate_Rxc5_legal: "move_Rxc5 \<in> set mate_moves"
  by (simp add: mate_moves_def)

lemma mate_Rd1_over: "game_isGameOver mate_engine (game_move mate_engine (mate_tree, []) move_Rd1)"
  by (simp add: mate_child mate_Rd1_legal) (simp add: mate_engine_def)

lemma mate_Rxc5_not_over:
  "\<not> game_isGameOver mate_engine (game_move mate_engine (mate_tree, []) move_Rxc5)"
proof -
  have "move_Rxc5 \<noteq> move_Rd1" by (simp add: move_Rxc5_def move_Rd1_def quiet_def)
  then show ?thesis
    by (simp add: mate_child mate_Rxc5_legal) (simp add: mate_engine_def)
qed

lemma mate_others_not_lower:
  "\<forall>m \<in> set (butlast mate_moves). - 360 \<le> evaluate_board (plain_move mate_board m)"
  by (simp add: mate_moves_def mate_values)

lemma mate_findBestMove: "findBestMove 1 mate_engine mate_fen 1 = Some (Inr (Some move_Rxc5))"
proof -
  let ?g = "(mate_tree, []) :: tree_game"
  let ?f = "\<lambda>m. fullMinimax mate_engine (game_move mate_engine ?g m) 0 True"
  have f: "?f m = Num (evaluate_board (plain_move mate_board m))" if "m \<in> set mate_moves" for m
    using that by (simp add: mate_child_evaluate)
  have ne: "game_moves mate_engine ?g \<noteq> []"
    by (simp add: mate_game_moves mate_moves_def)
  obtain st' where run: "findBestMove_run 1 mate_engine mate_fen 1
      = Some (Inr (fst (pick_best ?f (move_Rxc5 # butlast mate_moves) None Infinity), st'))"
    using findBestMove_run_loop[OF mate_load mate_undo_restores _ _ ne, of 1 1]
    by (auto simp: mate_game_moves mate_order)
  have keep: "\<forall>m \<in> set (butlast mate_moves). Num (- 360) \<le> ?f m"
  proof
    fix m assume m: "m \<in> set (butlast mate_moves)"
    then have "m \<in> set mate_moves" by (rule in_set_butlastD)
    from f[OF this] mate_others_not_lower m show "Num (- 360) \<le> ?f m"
      by simp
  qed
  have "?f move_Rxc5 = Num (- 360)"
    using f[OF mate_Rxc5_legal] by (simp add: mate_values)
  then have "pick_best ?f (move_Rxc5 # butlast mate_moves) None Infinity
      = pick_best ?f (butlast mate_moves) (Some move_Rxc5) (Num (- 360))"
    by (simp add: less_score_def)
  also have "\<dots> = (Some move_Rxc5, Num (- 360))"
    by (rule pick_best_keep[OF keep])
  finally show ?thesis
    using run by (simp add: findBestMove_def)
qed

lemma mate_root_scores:
  "root_score 1 mate_engine (mate_tree, []) 1 move_Rd1 = Some (Num 540)"
  "root_score 1 mate_engine (mate_tree, []) 1 move_Rxc5 = Some (Num (- 360))"
  using root_score_full[OF mate_undo_restores, of 1 1 move_Rd1 "(mate_tree, [])"]
    root_score_full[OF mate_undo_restores, of 1 1 move_Rxc5 "(mate_tree, [])"]
  by (simp_all add: mate_game_moves mate_Rd1_legal mate_Rxc5_legal mate_child_evaluate mate_values)

subsection \<open>The two-ply tree\<close>

lemma scenario_leaves:
  "evaluate_board (pawn_board 5 2) = 0"
  "evaluate_board (pawn_board 4 2) = - 5"
  "evaluate_board (pawn_board 5 3) = 5"
  "evaluate_board (pawn_board 4 3) = 0"
  by code_simp+

lemma scenario_moves_distinct: "move_a5 \<noteq> move_a6" "move_a4 \<noteq> move_a3"
  by (simp_all add: move_a5_def move_a6_def move_a4_def move_a3_def quiet_def)

lemma scenario_orders:
  "orderMoves_of [move_a6, move_a5] = [move_a6, move_a5]"
  "orderMoves_of [move_a3, move_a4] = [move_a3, move_a4]"
  by (simp_all add: orderMoves_of_eq sorted_by_def orderMoves_compare_def
      move_a5_def move_a6_def move_a4_def move_a3_def quiet_def)

lemma scenario_load: "new_Chess scenario_engine scenario_fen = Some (scenario_tree, [])"
  by (simp add: scenario_engine_def)

lemma scenario_undo_restores: "undo_restores scenario_engine g"
  by (simp add: scenario_engine_def tree_engine_undo_restores)

lemma scenario_game_over_reported: "game_over_reported scenario_engine g"
  by (simp add: scenario_engine_def tree_engine_game_over_reported)

lemma scenario_game_moves: "game_moves scenario_engine (scenario_tree, []) = [move_a6, move_a5]"
  by (simp add: scenario_engine_def scenario_tree_def)

lemma scenario_not_over: "\<not> game_isGameOver scenario_engine (scenario_tree, [])"
  by (simp add: scenario_engine_def scenario_tree_def)

lemma scenario_children:
  "game_move scenario_engine (scenario_tree, []) move_a6 = (scenario_a6, [scenario_tree])"
  "game_move scenario_engine (scenario_tree, []) move_a5 = (scenario_a5, [scenario_tree])"
  by (simp_all add: scenario_engine_def scenario_tree_def tree_move_def scenario_moves_distinct)

lemma scenario_ply1:
  "fullMinimax scenario_engine (scenario_a6, ps) (Suc 0) True = Num 0"
  "fullMinimax scenario_engine (scenario_a5, ps) (Suc 0) True = Num 5"
  by (simp_all add: scenario_engine_def scenario_a6_def scenario_a5_def scenario_orders
      tree_move_def scenario_moves_distinct evaluate_def scenario_leaves max_def)

lemma scenario_ply2: "fullMinimax scenario_engine (scenario_tree, []) (Suc (Suc 0)) False = Num 0"
  using scenario_not_over
  by (subst fullMinimax.simps)
     (simp add: scenario_game_moves scenario_orders scenario_children scenario_ply1 min_def
        del: fullMinimax.simps)

lemma scenario_root_scores:
  "root_score 2 scenario_engine (scenario_tree, []) 2 move_a6 = Some (Num 0)"
  "root_score 2 scenario_engine (scenario_tree, []) 2 move_a5 = Some (Num 5)"
  using root_score_full[OF scenario_undo_restores, of 2 2 move_a6 "(scenario_tree, [])"]
    root_score_full[OF scenario_undo_restores, of 2 2 move_a5 "(scenario_tree, [])"]
  by (simp_all add: scenario_game_moves scenario_children scenario_ply1 del: fullMinimax.simps)

lemma scenario_findBestMove:
  "findBestMove 2 scenario_engine scenario_fen 2 = Some (Inr (Some move_a6))"
proof -
  let ?g = "(scenario_tree, []) :: tree_game"
  let ?ms = "orderMoves_of (game_moves scenario_engine ?g)"
  let ?f = "\<lambda>m. fullMinimax scenario_engine (game_move scenario_engine ?g m) (nat (2 - 1)) True"
  have ms: "?ms = [move_a6, move_a5]"
    by (simp add: scenario_game_moves scenario_orders)
  have ne: "game_moves scenario_engine ?g \<noteq> []" by (simp add: scenario_game_moves)
  obtain i where i: "i < length ?ms"
    "findBestMove 2 scenario_engine scenario_fen 2 = Some (Inr (Some (?ms ! i)))"
    and low: "\<forall>j < length ?ms. ?f (?ms ! i) \<le> ?f (?ms ! j)"
    using findBestMove_choice[OF scenario_load scenario_undo_restores
        scenario_game_over_reported _ _ ne, of 2 2] by auto
  have f: "?f move_a6 = Num 0" "?f move_a5 = Num 5"
    by (simp_all add: scenario_children scenario_ply1 del: fullMinimax.simps)
  have "i = 0"
  proof (rule ccontr)
    assume "i \<noteq> 0"
    with i(1) ms have "i = 1" by simp
    with low ms have "?f move_a5 \<le> ?f move_a6" by (auto dest: spec[of _ 0])
    with f show False by simp
  qed
  with i(2) ms show ?thesis by simp
qed

section \<open>The claims\<close>

text \<open>
  Claim C1. Alpha-beta pruning never changes the value. With a rules engine whose
  \<^verbatim>\<open>undo\<close> takes back \<^verbatim>\<open>move\<close>, for every position \<open>g\<close> and every depth of at least
  1 (and enough fuel for that many nested calls): a call of \<^verbatim>\<open>minimax\<close> with depth
  \<open>depth - 1\<close> and the window \<^verbatim>\<open>(-Infinity, Infinity)\<close> returns the value of the
  unpruned traversal \<open>fullMinimax\<close> of the same tree; the \<open>bestEval\<close> the loop of
  \<^verbatim>\<open>findBestMove\<close> ends with is the minimum, over the ordered root moves, of the
  unpruned values of the positions after them; and when the root position is not
  game over, that is the unpruned minimizing value of the root at the full depth.
  The witness is the hand-constructed tree of two plies: the leaves evaluate to
  0, -5, 5 and 0, and the search score at depth 2 is \<open>min (max 0 (-5)) (max 5 0) = 0\<close>.
\<close>

theorem pruned_search_equals_full_minimax:
  assumes "undo_restores eng g" "1 \<le> depth" "nat depth \<le> fuel" "game st = g"
  shows "(\<exists>st'. minimax fuel eng st (depth - 1) NegInfinity Infinity isMax
            = Some (fullMinimax eng g (nat (depth - 1)) isMax, st'))
    \<and> (\<exists>bestMove st'. findBestMove_loop fuel eng st depth (orderMoves_of (game_moves eng g))
            None Infinity
          = Some ((bestMove,
                   fold min (map (\<lambda>m. fullMinimax eng (game_move eng g m) (nat (depth - 1)) True)
                               (orderMoves_of (game_moves eng g))) Infinity), st'))
    \<and> (\<not> game_isGameOver eng g \<longrightarrow>
         fold min (map (\<lambda>m. fullMinimax eng (game_move eng g m) (nat (depth - 1)) True)
                     (orderMoves_of (game_moves eng g))) Infinity
           = fullMinimax eng g (nat depth) False)"
proof (intro conjI impI)
  have "0 \<le> depth - 1" "nat (depth - 1) < fuel" using assms(2,3) by auto
  then show "\<exists>st'. minimax fuel eng st (depth - 1) NegInfinity Infinity isMax
      = Some (fullMinimax eng g (nat (depth - 1)) isMax, st')"
    using minimax_full_window[of eng st "depth - 1" fuel isMax] assms(1,4) by auto
next
  let ?ms = "orderMoves_of (game_moves eng g)"
  let ?f = "\<lambda>m. fullMinimax eng (game_move eng g m) (nat (depth - 1)) True"
  have "\<exists>st'. findBestMove_loop fuel eng st depth ?ms None Infinity
        = Some (pick_best (\<lambda>m. fullMinimax eng (game_move eng (game st) m) (nat (depth - 1)) True)
                  ?ms None Infinity, st')
      \<and> game st' = game st \<and> pending st' = pending st \<and> evalCalls st \<le> evalCalls st'"
    by (rule findBestMove_loop_ok) (simp_all add: assms set_orderMoves_of)
  then obtain st' where "findBestMove_loop fuel eng st depth ?ms None Infinity
      = Some (pick_best ?f ?ms None Infinity, st')"
    using assms(4) by auto
  moreover have "pick_best ?f ?ms None Infinity
      = (fst (pick_best ?f ?ms None Infinity), fold min (map ?f ?ms) Infinity)"
    using pick_best_snd[of ?f ?ms None Infinity] by (metis prod.collapse)
  ultimately show "\<exists>bestMove st'. findBestMove_loop fuel eng st depth ?ms None Infinity
      = Some ((bestMove, fold min (map ?f ?ms) Infinity), st')"
    by metis
next
  assume "\<not> game_isGameOver eng g"
  moreover have "nat depth = Suc (nat (depth - 1))" using assms(2) by simp
  ultimately show "fold min (map (\<lambda>m. fullMinimax eng (game_move eng g m) (nat (depth - 1)) True)
                     (orderMoves_of (game_moves eng g))) Infinity
           = fullMinimax eng g (nat depth) False"
    by (simp add: Let_def)
qed

theorem pruned_search_equals_full_minimax_witness:
  "undo_restores scenario_engine (scenario_tree, [])
   \<and> (\<exists>bestMove st'. findBestMove_loop 2 scenario_engine
          \<lparr>game = (scenario_tree, []), evalCalls = 0, pending = []\<rparr> 2
          (orderMoves_of (game_moves scenario_engine (scenario_tree, []))) None Infinity
        = Some ((bestMove, Num 0), st'))
   \<and> fullMinimax scenario_engine (scenario_tree, []) 2 False = Num 0
   \<and> min (max (Num (evaluate_board (pawn_board 5 2))) (Num (evaluate_board (pawn_board 4 2))))
          (max (Num (evaluate_board (pawn_board 5 3))) (Num (evaluate_board (pawn_board 4 3))))
       = Num 0"
proof -
  let ?g = "(scenario_tree, []) :: tree_game"
  let ?st = "\<lparr>game = ?g, evalCalls = 0, pending = []\<rparr>"
  let ?F = "fold min (map (\<lambda>m. fullMinimax scenario_engine (game_move scenario_engine ?g m)
                                (nat (2 - 1)) True)
                        (orderMoves_of (game_moves scenario_engine ?g))) Infinity"
  have ur: "undo_restores scenario_engine ?g" by (rule scenario_undo_restores)
  have th: "(\<exists>st'. minimax 2 scenario_engine ?st (2 - 1) NegInfinity Infinity True
            = Some (fullMinimax scenario_engine ?g (nat (2 - 1)) True, st'))
    \<and> (\<exists>bestMove st'. findBestMove_loop 2 scenario_engine ?st 2
            (orderMoves_of (game_moves scenario_engine ?g)) None Infinity
          = Some ((bestMove, ?F), st'))
    \<and> (\<not> game_isGameOver scenario_engine ?g \<longrightarrow>
          ?F = fullMinimax scenario_engine ?g (nat 2) False)"
    by (rule pruned_search_equals_full_minimax[OF ur]) simp_all
  have full: "fullMinimax scenario_engine ?g 2 False = Num 0"
    using scenario_ply2 by (simp add: numeral_2_eq_2 del: fullMinimax.simps)
  have F0: "?F = fullMinimax scenario_engine ?g (nat 2) False"
    using th scenario_not_over by blast
  have F: "?F = Num 0"
    unfolding F0 using full by (simp del: fullMinimax.simps)
  from th obtain bestMove st' where "findBestMove_loop 2 scenario_engine ?st 2
      (orderMoves_of (game_moves scenario_engine ?g)) None Infinity = Some ((bestMove, ?F), st')"
    by blast
  then have loop: "\<exists>bestMove st'. findBestMove_loop 2 scenario_engine ?st 2
      (orderMoves_of (game_moves scenario_engine ?g)) None Infinity = Some ((bestMove, Num 0), st')"
    unfolding F by blast
  have hand: "min (max (Num (evaluate_board (pawn_board 5 2))) (Num (evaluate_board (pawn_board 4 2))))
          (max (Num (evaluate_board (pawn_board 5 3))) (Num (evaluate_board (pawn_board 4 3))))
       = Num 0"
    by (simp add: scenario_leaves max_def min_def)
  show ?thesis using ur loop full hand by blast
qed

text \<open>
  Claim C2. The claim says that White's pieces read their piece-square table directly
  at the square index and Black's at the vertically mirrored index. The code does the
  opposite: \<^verbatim>\<open>evaluate\<close> reads \<open>pst[mirrorIdx]\<close> for a white piece and \<open>pst[idx]\<close>
  for a black one. On the position after 1. e4 the code returns -25 (the white pawn
  went from the table's 50 to its 25), where the formula of the claim gives 40 (from
  -20 to 20). The tables are written for White with rank 8 first, as \<^verbatim>\<open>board()\<close>
  lists the rows: the row of 50s of \<open>PST_PAWN\<close> is the rank before promotion and the
  last row of \<open>PST_KING_MID\<close> rewards the castled king, so the code gives a white
  pawn its largest bonus on its starting square and penalises the castled white king.
\<close>

theorem evaluate_mirrors_white_table:
  "evaluate (tree_engine Map.empty) (Node board_after_e4 False [], []) = - 25
   \<and> claimed_evaluate board_after_e4 = 40"
  by (simp add: evaluate_def board_after_e4_value claimed_after_e4)

text \<open>
  Claim C3. With a rules engine that keeps its contract (\<^verbatim>\<open>undo\<close> takes back
  \<^verbatim>\<open>move\<close>; a position without legal moves is reported as game over), for every
  position with at least one legal move and every depth of at least 1,
  \<^verbatim>\<open>findBestMove\<close> returns the move at some index \<open>i\<close> of the ordered root moves
  whose score, as returned by \<^verbatim>\<open>minimax(game, depth - 1, -Infinity, Infinity, true)\<close>
  after the move, is at most the score of every root move and strictly lower than the
  score of every root move before index \<open>i\<close>: the first of the lowest-scoring moves.
\<close>

theorem findBestMove_first_lowest:
  assumes "new_Chess eng fen = Some g" "undo_restores eng g" "game_over_reported eng g"
    and "1 \<le> depth" "nat depth \<le> fuel" "game_moves eng g \<noteq> []"
  shows "\<exists>sc i. (\<forall>m \<in> set (game_moves eng g). root_score fuel eng g depth m = Some (sc m))
      \<and> i < length (orderMoves_of (game_moves eng g))
      \<and> findBestMove fuel eng fen depth = Some (Inr (Some (orderMoves_of (game_moves eng g) ! i)))
      \<and> (\<forall>j < length (orderMoves_of (game_moves eng g)).
            sc (orderMoves_of (game_moves eng g) ! i) \<le> sc (orderMoves_of (game_moves eng g) ! j))
      \<and> (\<forall>j < i. sc (orderMoves_of (game_moves eng g) ! i)
                    < sc (orderMoves_of (game_moves eng g) ! j))"
proof -
  let ?f = "\<lambda>m. fullMinimax eng (game_move eng g m) (nat (depth - 1)) True"
  have "\<forall>m \<in> set (game_moves eng g). root_score fuel eng g depth m = Some (?f m)"
    using root_score_full[OF assms(2,4,5)] by blast
  then show ?thesis
    using findBestMove_choice[OF assms] by (intro exI[of _ ?f]) blast
qed

theorem findBestMove_first_lowest_witness:
  "new_Chess scenario_engine scenario_fen = Some (scenario_tree, [])
   \<and> undo_restores scenario_engine (scenario_tree, [])
   \<and> game_over_reported scenario_engine (scenario_tree, [])
   \<and> game_moves scenario_engine (scenario_tree, []) \<noteq> []
   \<and> orderMoves_of (game_moves scenario_engine (scenario_tree, [])) = [move_a6, move_a5]
   \<and> root_score 2 scenario_engine (scenario_tree, []) 2 move_a6 = Some (Num 0)
   \<and> root_score 2 scenario_engine (scenario_tree, []) 2 move_a5 = Some (Num 5)
   \<and> findBestMove 2 scenario_engine scenario_fen 2 = Some (Inr (Some move_a6))"
proof -
  let ?g = "(scenario_tree, []) :: tree_game"
  let ?ms = "orderMoves_of (game_moves scenario_engine ?g)"
  have ms: "?ms = [move_a6, move_a5]"
    by (simp add: scenario_game_moves scenario_orders)
  have ne: "game_moves scenario_engine ?g \<noteq> []" by (simp add: scenario_game_moves)
  obtain sc i where sc: "\<forall>m \<in> set (game_moves scenario_engine ?g).
        root_score 2 scenario_engine ?g 2 m = Some (sc m)"
    and i: "i < length ?ms"
    and best: "findBestMove 2 scenario_engine scenario_fen 2 = Some (Inr (Some (?ms ! i)))"
    and low: "\<forall>j < length ?ms. sc (?ms ! i) \<le> sc (?ms ! j)"
    using findBestMove_first_lowest[OF scenario_load scenario_undo_restores
        scenario_game_over_reported _ _ ne, of 2 2] by auto
  have v: "sc move_a6 = Num 0" "sc move_a5 = Num 5"
    using sc scenario_root_scores by (simp_all add: scenario_game_moves)
  have "i = 0"
  proof (rule ccontr)
    assume "i \<noteq> 0"
    with i ms have "i = 1" by simp
    with low ms have "sc move_a5 \<le> sc move_a6" by (auto dest: spec[of _ 0])
    with v show False by simp
  qed
  with best ms have "findBestMove 2 scenario_engine scenario_fen 2 = Some (Inr (Some move_a6))"
    by simp
  then show ?thesis
    using scenario_load scenario_undo_restores scenario_game_over_reported ne ms
      scenario_root_scores by blast
qed

text \<open>
  Claim C4, amended. \<^verbatim>\<open>orderMoves\<close> is not pure: \<^verbatim>\<open>moves.sort\<close> sorts the input
  array in place and \<^verbatim>\<open>orderMoves\<close> returns that same array. What holds is: the
  returned reference is the input reference; afterwards the array holds the same move
  objects as before (the same multiset, none of them changed), by descending
  priority, moves of equal priority in their former order; every other array is
  unchanged. The counterexample is the array holding \<^verbatim>\<open>Kg8\<close> and then \<^verbatim>\<open>Rxc5\<close>:
  after the call it holds \<^verbatim>\<open>Rxc5\<close> and then \<^verbatim>\<open>Kg8\<close>.
\<close>

theorem orderMoves_sorts_in_place:
  assumes "orderMoves moves h = (r, h')"
  shows "r = moves
    \<and> mset (h' moves) = mset (h moves)
    \<and> sorted_wrt (\<lambda>a b. move_priority b \<le> move_priority a) (h' moves)
    \<and> (\<forall>p. filter (\<lambda>m. move_priority m = p) (h' moves) = filter (\<lambda>m. move_priority m = p) (h moves))
    \<and> (\<forall>a. a \<noteq> moves \<longrightarrow> h' a = h a)"
  using assms
  by (auto simp: orderMoves_def Array_sort_def mset_sorted_by sorted_sorted_by filter_sorted_by)

theorem orderMoves_mutates_input:
  "snd (orderMoves 0 ((\<lambda>_. [])(0 := [move_Kg8, move_Rxc5]))) 0 = [move_Rxc5, move_Kg8]
   \<and> ((\<lambda>_. [])(0 := [move_Kg8, move_Rxc5])) (0::nat) = [move_Kg8, move_Rxc5]
   \<and> [move_Rxc5, move_Kg8] \<noteq> [move_Kg8, move_Rxc5]"
  by (simp add: orderMoves_def Array_sort_def sorted_by_def orderMoves_compare_def
      move_Kg8_def move_Rxc5_def quiet_def)

theorem orderMoves_sorts_in_place_witness:
  "fst (orderMoves 0 ((\<lambda>_. [])(0 := [move_Kg8, move_Rxc5]))) = 0
   \<and> mset (snd (orderMoves 0 ((\<lambda>_. [])(0 := [move_Kg8, move_Rxc5]))) 0)
       = mset [move_Kg8, move_Rxc5]
   \<and> sorted_wrt (\<lambda>a b. move_priority b \<le> move_priority a)
       (snd (orderMoves 0 ((\<lambda>_. [])(0 := [move_Kg8, move_Rxc5]))) 0)
   \<and> snd (orderMoves 0 ((\<lambda>_. [])(0 := [move_Kg8, move_Rxc5]))) 1 = []"
  using orderMoves_sorts_in_place[of 0 "(\<lambda>_. [])(0 := [move_Kg8, move_Rxc5])"
      "fst (orderMoves 0 ((\<lambda>_. [])(0 := [move_Kg8, move_Rxc5])))"
      "snd (orderMoves 0 ((\<lambda>_. [])(0 := [move_Kg8, move_Rxc5])))"]
  by simp

text \<open>
  Claim C5, amended. The search has no score for checkmate: a position that is game
  over is scored by \<^verbatim>\<open>evaluate\<close> like any other leaf, both kings counted. With a
  rules engine that keeps its contract, for every position with a move \<open>mate\<close> after
  which the game is over and every depth of at least 1: the score of \<open>mate\<close> is
  \<^verbatim>\<open>evaluate\<close> of the position after it; if \<^verbatim>\<open>findBestMove\<close> returns \<open>mate\<close>, no
  root move has a lower score; and if every other root move has a strictly higher
  score, \<^verbatim>\<open>findBestMove\<close> returns \<open>mate\<close>. The counterexample is the position with
  mate in one at depth 1: \<^verbatim>\<open>Rd1#\<close> scores 540 and \<^verbatim>\<open>findBestMove\<close> returns
  \<^verbatim>\<open>Rxc5\<close>, which scores -360 and does not end the game.
\<close>

theorem mating_move_scored_by_evaluate:
  assumes "new_Chess eng fen = Some g" "undo_restores eng g" "game_over_reported eng g"
    and "1 \<le> depth" "nat depth \<le> fuel"
    and "mate \<in> set (game_moves eng g)" "game_isGameOver eng (game_move eng g mate)"
  shows "root_score fuel eng g depth mate = Some (Num (evaluate eng (game_move eng g mate)))
    \<and> (findBestMove fuel eng fen depth = Some (Inr (Some mate)) \<longrightarrow>
         (\<forall>m \<in> set (game_moves eng g). \<exists>v. root_score fuel eng g depth m = Some v
              \<and> Num (evaluate eng (game_move eng g mate)) \<le> v))
    \<and> ((\<forall>m \<in> set (game_moves eng g). m \<noteq> mate \<longrightarrow>
           (\<exists>v. root_score fuel eng g depth m = Some v
              \<and> Num (evaluate eng (game_move eng g mate)) < v)) \<longrightarrow>
         findBestMove fuel eng fen depth = Some (Inr (Some mate)))"
proof -
  let ?ms = "orderMoves_of (game_moves eng g)"
  let ?f = "\<lambda>m. fullMinimax eng (game_move eng g m) (nat (depth - 1)) True"
  let ?e = "Num (evaluate eng (game_move eng g mate))"
  have ne: "game_moves eng g \<noteq> []" using assms(6) by auto
  have rs: "root_score fuel eng g depth m = Some (?f m)" if "m \<in> set (game_moves eng g)" for m
    using root_score_full[OF assms(2,4,5) that] .
  have fm: "?f mate = ?e" using fullMinimax_game_over[OF assms(7)] .
  obtain i where i: "i < length ?ms" "findBestMove fuel eng fen depth = Some (Inr (Some (?ms ! i)))"
    and low: "\<forall>j < length ?ms. ?f (?ms ! i) \<le> ?f (?ms ! j)"
    using findBestMove_choice[OF assms(1,2,3,4,5) ne] by blast
  have legal_i: "?ms ! i \<in> set (game_moves eng g)"
    using i(1) set_orderMoves_of[of "game_moves eng g"] nth_mem by blast
  have lowest: "?f (?ms ! i) \<le> ?f m" if "m \<in> set (game_moves eng g)" for m
  proof -
    from that have "m \<in> set ?ms" by (simp add: set_orderMoves_of)
    then obtain j where "j < length ?ms" "?ms ! j = m" by (auto simp: in_set_conv_nth)
    with low show ?thesis by auto
  qed
  have 1: "root_score fuel eng g depth mate = Some ?e"
    using rs[OF assms(6)] fm by simp
  have 2: "\<forall>m \<in> set (game_moves eng g). \<exists>v. root_score fuel eng g depth m = Some v \<and> ?e \<le> v"
    if "findBestMove fuel eng fen depth = Some (Inr (Some mate))"
  proof
    fix m assume m: "m \<in> set (game_moves eng g)"
    from that i(2) have "?ms ! i = mate" by simp
    with lowest[OF m] fm have "?e \<le> ?f m" by simp
    with rs[OF m] show "\<exists>v. root_score fuel eng g depth m = Some v \<and> ?e \<le> v" by simp
  qed
  have 3: "findBestMove fuel eng fen depth = Some (Inr (Some mate))"
    if strict: "\<forall>m \<in> set (game_moves eng g). m \<noteq> mate \<longrightarrow>
           (\<exists>v. root_score fuel eng g depth m = Some v \<and> ?e < v)"
  proof (rule ccontr)
    assume "findBestMove fuel eng fen depth \<noteq> Some (Inr (Some mate))"
    with i(2) have neq: "?ms ! i \<noteq> mate" by auto
    with strict legal_i rs[OF legal_i] have "?e < ?f (?ms ! i)" by auto
    moreover have "?f (?ms ! i) \<le> ?e" using lowest[OF assms(6)] fm by simp
    ultimately show False by simp
  qed
  show ?thesis using 1 2 3 by blast
qed

theorem findBestMove_prefers_material_to_mate:
  "new_Chess mate_engine mate_fen = Some (mate_tree, [])
   \<and> move_Rd1 \<in> set (game_moves mate_engine (mate_tree, []))
   \<and> game_isGameOver mate_engine (game_move mate_engine (mate_tree, []) move_Rd1)
   \<and> findBestMove 1 mate_engine mate_fen 1 = Some (Inr (Some move_Rxc5))
   \<and> \<not> game_isGameOver mate_engine (game_move mate_engine (mate_tree, []) move_Rxc5)
   \<and> root_score 1 mate_engine (mate_tree, []) 1 move_Rd1 = Some (Num 540)
   \<and> root_score 1 mate_engine (mate_tree, []) 1 move_Rxc5 = Some (Num (- 360))"
  using mate_load mate_Rd1_legal mate_Rd1_over mate_findBestMove mate_Rxc5_not_over
    mate_root_scores
  by (simp add: mate_game_moves)

theorem mating_move_scored_by_evaluate_witness:
  "new_Chess mate_engine mate_fen = Some (mate_tree, [])
   \<and> undo_restores mate_engine (mate_tree, [])
   \<and> game_over_reported mate_engine (mate_tree, [])
   \<and> move_Rd1 \<in> set (game_moves mate_engine (mate_tree, []))
   \<and> game_isGameOver mate_engine (game_move mate_engine (mate_tree, []) move_Rd1)
   \<and> root_score 1 mate_engine (mate_tree, []) 1 move_Rd1
       = Some (Num (evaluate mate_engine (game_move mate_engine (mate_tree, []) move_Rd1)))
   \<and> evaluate mate_engine (game_move mate_engine (mate_tree, []) move_Rd1) = 540
   \<and> findBestMove 1 mate_engine mate_fen 1 \<noteq> Some (Inr (Some move_Rd1))"
proof -
  let ?g = "(mate_tree, []) :: tree_game"
  have legal: "move_Rd1 \<in> set (game_moves mate_engine ?g)"
    by (simp add: mate_game_moves mate_Rd1_legal)
  have "root_score 1 mate_engine ?g 1 move_Rd1
       = Some (Num (evaluate mate_engine (game_move mate_engine ?g move_Rd1)))"
    using mating_move_scored_by_evaluate[OF mate_load mate_undo_restores
        mate_game_over_reported _ _ legal mate_Rd1_over, of 1 1] by simp
  moreover have "evaluate mate_engine (game_move mate_engine ?g move_Rd1) = 540"
    by (simp add: mate_child_evaluate mate_Rd1_legal mate_values)
  moreover have "move_Rxc5 \<noteq> move_Rd1" by (simp add: move_Rxc5_def move_Rd1_def quiet_def)
  then have "findBestMove 1 mate_engine mate_fen 1 \<noteq> Some (Inr (Some move_Rd1))"
    using mate_findBestMove by simp
  ultimately show ?thesis
    using mate_load mate_undo_restores mate_game_over_reported legal mate_Rd1_over by blast
qed

text \<open>
  Claim C6. For every position without legal moves, every depth and every fuel,
  \<^verbatim>\<open>findBestMove\<close> returns \<^verbatim>\<open>null\<close>, and the call ends in the state it started in,
  the counter of \<^verbatim>\<open>evaluate\<close> calls still 0: \<^verbatim>\<open>evaluate\<close> is never called.
\<close>

theorem findBestMove_no_legal_move:
  assumes "new_Chess eng fen = Some g" "game_moves eng g = []"
  shows "findBestMove fuel eng fen depth = Some (Inr None)
    \<and> findBestMove_run fuel eng fen depth
        = Some (Inr (None, \<lparr>game = g, evalCalls = 0, pending = []\<rparr>))"
  using assms
  by (simp add: findBestMove_def findBestMove_run_def orderMoves_of_eq sorted_by_def)

theorem findBestMove_no_legal_move_witness:
  "new_Chess mate_engine mated_fen = Some (mated_tree, [])
   \<and> game_moves mate_engine (mated_tree, []) = []
   \<and> findBestMove 3 mate_engine mated_fen 3 = Some (Inr None)
   \<and> findBestMove_run 3 mate_engine mated_fen 3
       = Some (Inr (None, \<lparr>game = (mated_tree, []), evalCalls = 0, pending = []\<rparr>))"
  using findBestMove_no_legal_move[OF mated_load mated_game_moves, of 3 3]
    mated_load mated_game_moves
  by blast

text \<open>
  Claim C7. With a rules engine whose \<^verbatim>\<open>undo\<close> takes back \<^verbatim>\<open>move\<close>, every call of
  \<^verbatim>\<open>minimax\<close> (any window, maximizing or not, so also when a cutoff leaves a loop
  early) returns with the \<^verbatim>\<open>Chess\<close> object in the state it had on entry and with the
  stack of applied and not yet undone moves as it was on entry; and every call of
  \<^verbatim>\<open>findBestMove\<close> on a position that loads ends with its \<^verbatim>\<open>game\<close> object in the
  loaded state and no move pending.
\<close>

theorem search_restores_position:
  assumes "undo_restores eng (game st)" "0 \<le> depth" "nat depth < fuel"
    and "new_Chess eng fen = Some g" "undo_restores eng g" "1 \<le> rootDepth" "nat rootDepth \<le> rootFuel"
  shows "(\<exists>v st'. minimax fuel eng st depth alpha beta isMaximizing = Some (v, st')
            \<and> game st' = game st \<and> pending st' = pending st)
    \<and> (\<exists>bestMove st'. findBestMove_run rootFuel eng fen rootDepth = Some (Inr (bestMove, st'))
            \<and> game st' = g \<and> pending st' = [])"
proof
  show "\<exists>v st'. minimax fuel eng st depth alpha beta isMaximizing = Some (v, st')
            \<and> game st' = game st \<and> pending st' = pending st"
    using minimax_ok[OF assms(1,2,3), of alpha beta isMaximizing]
    by (auto simp: returns_restored_def)
next
  show "\<exists>bestMove st'. findBestMove_run rootFuel eng fen rootDepth = Some (Inr (bestMove, st'))
            \<and> game st' = g \<and> pending st' = []"
  proof (cases "game_moves eng g = []")
    case True
    then show ?thesis using assms(4)
      by (simp add: findBestMove_run_def orderMoves_of_eq sorted_by_def)
  next
    case False
    then show ?thesis
      using findBestMove_run_loop[OF assms(4,5,6,7)] by blast
  qed
qed

theorem search_restores_position_witness:
  "undo_restores scenario_engine (scenario_tree, [])
   \<and> new_Chess scenario_engine scenario_fen = Some (scenario_tree, [])
   \<and> (\<exists>v st'. minimax 2 scenario_engine
          \<lparr>game = (scenario_tree, []), evalCalls = 0, pending = []\<rparr> 1 (Num 0) (Num 5) False
        = Some (v, st') \<and> game st' = (scenario_tree, []) \<and> pending st' = [])
   \<and> (\<exists>bestMove st'. findBestMove_run 2 scenario_engine scenario_fen 2
        = Some (Inr (bestMove, st')) \<and> game st' = (scenario_tree, []) \<and> pending st' = [])"
proof -
  let ?g = "(scenario_tree, []) :: tree_game"
  let ?st = "\<lparr>game = ?g, evalCalls = 0, pending = []\<rparr>"
  have ur: "undo_restores scenario_engine (game ?st)"
    by (simp add: scenario_undo_restores)
  have "(\<exists>v st'. minimax 2 scenario_engine ?st 1 (Num 0) (Num 5) False = Some (v, st')
            \<and> game st' = game ?st \<and> pending st' = pending ?st)
    \<and> (\<exists>bestMove st'. findBestMove_run 2 scenario_engine scenario_fen 2
            = Some (Inr (bestMove, st')) \<and> game st' = ?g \<and> pending st' = [])"
    by (rule search_restores_position[OF ur _ _ scenario_load scenario_undo_restores]) simp_all
  then show ?thesis
    using scenario_undo_restores scenario_load by simp
qed

text \<open>
  Claim C8. For every position \<open>p\<close> (with the 8x8 board chess.js returns) and every
  position \<open>q\<close> whose board is the colour-reversed, vertically mirrored board of \<open>p\<close>,
  \<^verbatim>\<open>evaluate\<close> of \<open>q\<close> is the negation of \<^verbatim>\<open>evaluate\<close> of \<open>p\<close>.
\<close>

theorem evaluate_mirror_negated:
  assumes "wf_board (game_board eng p)"
    and "game_board eng q = mirror_board (game_board eng p)"
  shows "evaluate eng q = - evaluate eng p"
  using assms by (simp add: evaluate_def evaluate_board_mirror)

theorem evaluate_mirror_negated_witness:
  "wf_board (game_board (tree_engine Map.empty) (Node board_after_e4 False [], []))
   \<and> game_board (tree_engine Map.empty) (Node board_after_e4_reversed False [], [])
       = mirror_board (game_board (tree_engine Map.empty) (Node board_after_e4 False [], []))
   \<and> evaluate (tree_engine Map.empty) (Node board_after_e4_reversed False [], []) = 25
   \<and> evaluate (tree_engine Map.empty) (Node board_after_e4 False [], []) = - 25"
proof -
  let ?E = "tree_engine Map.empty :: tree_game engine"
  have wf: "wf_board (game_board ?E (Node board_after_e4 False [], []))"
    by (simp add: tree_engine_def wf_board_def board_after_e4_def)
  have mir: "game_board ?E (Node board_after_e4_reversed False [], [])
      = mirror_board (game_board ?E (Node board_after_e4 False [], []))"
    by (simp add: tree_engine_def mirror_board_def board_after_e4_def
        board_after_e4_reversed_def flip_piece_def)
  have val: "evaluate ?E (Node board_after_e4 False [], []) = - 25"
    by (simp add: evaluate_def tree_engine_def board_after_e4_value)
  show ?thesis
    using wf mir val evaluate_mirror_negated[OF wf mir] by simp
qed

text \<open>
  Claim C9. For every rules engine, every position string and every depth of at
  least 1, \<^verbatim>\<open>findBestMove\<close> returns (a move, \<^verbatim>\<open>null\<close>, or the error of a string
  that does not load) as soon as the fuel is at least the depth, and so does the call
  of \<^verbatim>\<open>minimax\<close> with depth \<open>depth - 1\<close>: the calls never nest deeper than the
  depth, which goes down by one at each call until it is 0 or the game is over.
\<close>

theorem findBestMove_terminates:
  assumes "1 \<le> depth" "nat depth \<le> fuel"
  shows "(\<exists>r. findBestMove fuel eng fen depth = Some r)
    \<and> (\<exists>r. minimax fuel eng st (depth - 1) alpha beta isMaximizing = Some r)"
proof
  show "\<exists>r. findBestMove fuel eng fen depth = Some r"
  proof (cases "new_Chess eng fen")
    case None
    then show ?thesis by (simp add: findBestMove_def findBestMove_run_def)
  next
    case (Some g)
    obtain r where "findBestMove_loop fuel eng \<lparr>game = g, evalCalls = 0, pending = []\<rparr> depth
        (orderMoves_of (game_moves eng g)) None Infinity = Some r"
      using findBestMove_loop_returns[OF assms] by blast
    then show ?thesis using Some
      by (simp add: findBestMove_def findBestMove_run_def Let_def split: prod.splits)
  qed
next
  have "0 \<le> depth - 1" "nat (depth - 1) < fuel" using assms by auto
  then show "\<exists>r. minimax fuel eng st (depth - 1) alpha beta isMaximizing = Some r"
    by (rule minimax_returns)
qed

theorem findBestMove_terminates_witness:
  "(1::int) \<le> 2 \<and> nat 2 \<le> (2::nat)
   \<and> findBestMove 2 scenario_engine scenario_fen 2 = Some (Inr (Some move_a6))
   \<and> (\<exists>r. minimax 2 scenario_engine
          \<lparr>game = (scenario_tree, []), evalCalls = 0, pending = []\<rparr> (2 - 1)
          NegInfinity Infinity True = Some r)"
  using findBestMove_terminates[of 2 2 scenario_engine scenario_fen
      "\<lparr>game = (scenario_tree, []), evalCalls = 0, pending = []\<rparr>" NegInfinity Infinity True]
    scenario_findBestMove
  by simp

text \<open>
  Claim C10. With a rules engine whose \<^verbatim>\<open>undo\<close> takes back \<^verbatim>\<open>move\<close> and which
  reports every position reachable from the root that has no legal move as game
  over, for every position with at least one legal move and every depth of at least
  1, \<^verbatim>\<open>findBestMove\<close> returns a move, and that move is one of the legal moves of
  the position.
\<close>

theorem findBestMove_returns_legal_move:
  assumes "new_Chess eng fen = Some g" "undo_restores eng g" "game_over_reported eng g"
    and "1 \<le> depth" "nat depth \<le> fuel" "game_moves eng g \<noteq> []"
  shows "\<exists>m \<in> set (game_moves eng g). findBestMove fuel eng fen depth = Some (Inr (Some m))"
proof -
  obtain i where "i < length (orderMoves_of (game_moves eng g))"
    "findBestMove fuel eng fen depth = Some (Inr (Some (orderMoves_of (game_moves eng g) ! i)))"
    using findBestMove_choice[OF assms] by blast
  moreover from this(1) have "orderMoves_of (game_moves eng g) ! i \<in> set (game_moves eng g)"
    using set_orderMoves_of[of "game_moves eng g"] nth_mem by blast
  ultimately show ?thesis by blast
qed

theorem findBestMove_returns_legal_move_witness:
  "new_Chess mate_engine mate_fen = Some (mate_tree, [])
   \<and> undo_restores mate_engine (mate_tree, [])
   \<and> game_over_reported mate_engine (mate_tree, [])
   \<and> game_moves mate_engine (mate_tree, []) \<noteq> []
   \<and> findBestMove 1 mate_engine mate_fen 1 = Some (Inr (Some move_Rxc5))
   \<and> move_Rxc5 \<in> set (game_moves mate_engine (mate_tree, []))"
proof -
  let ?g = "(mate_tree, []) :: tree_game"
  have ne: "game_moves mate_engine ?g \<noteq> []"
    by (simp add: mate_game_moves mate_moves_def)
  obtain m where m: "m \<in> set (game_moves mate_engine ?g)"
    "findBestMove 1 mate_engine mate_fen 1 = Some (Inr (Some m))"
    using findBestMove_returns_legal_move[OF mate_load mate_undo_restores
        mate_game_over_reported _ _ ne, of 1 1] by auto
  with mate_findBestMove have "m = move_Rxc5" by simp
  with m show ?thesis
    using mate_load mate_undo_restores mate_game_over_reported ne by blast
qed

end
